theory Spec2Isabelle
  imports Main "HOL-Library.Word"
begin

section \<open>The replay driver of flashback (replay/src/main.go)\<close>

text \<open>
  The file embeds \<^verbatim>\<open>main.go\<close>: the flag validation \<^verbatim>\<open>parseFlags\<close>, the retry wrapper
  \<^verbatim>\<open>RetryOnSocketFailure\<close>, the sequential start of \<^verbatim>\<open>main\<close> (logger, reader,
  dispatcher) and the goroutines \<^verbatim>\<open>main\<close> starts (the workers \<^verbatim>\<open>fetch\<close>, the reporter,
  the wait loop of \<^verbatim>\<open>main\<close> itself).

  The package \<^verbatim>\<open>replay\<close> (readers, dispatchers, executor, logger, statistics) and the
  driver \<^verbatim>\<open>mgo\<close> are not part of the file. What they return is a parameter of the model
  (the records \<open>collab\<close> and \<open>mongo\<close> below); the few places where a claim is about what
  they do are modelled from the specification and marked so.
\<close>

subsection \<open>Errors\<close>

text \<open>
  A non-nil Go \<^verbatim>\<open>error\<close>. \<^verbatim>\<open>RetryOnSocketFailure\<close> tells apart the dynamic types
  \<^verbatim>\<open>*mgo.QueryError\<close> and \<^verbatim>\<open>*mgo.LastError\<close> and the one value \<^verbatim>\<open>mgo.ErrNotFound\<close>;
  every other error (also one made by \<^verbatim>\<open>errors.New\<close>) is \<open>OtherError\<close> with its message.
  The nil error is \<open>None\<close> of \<open>go_error option\<close>.
\<close>

datatype go_error =
    QueryError string
  | LastError string
  | ErrNotFound
  | OtherError string

subsection \<open>RetryOnSocketFailure\<close>

text \<open>
  What \<^verbatim>\<open>RetryOnSocketFailure\<close> does to the outside, in order: a call of \<^verbatim>\<open>block()\<close>
  with the error it returned, \<^verbatim>\<open>session.Refresh()\<close>, and the line
  \<^verbatim>\<open>logger.Error("retrying mongo query after error: ", err)\<close>.
\<close>

datatype retry_event =
    Invoke "go_error option"
  | Refresh
  | LogRetry go_error

text \<open>
  \<^verbatim>\<open>block\<close> and \<^verbatim>\<open>session.Refresh\<close> act on the state \<open>'db\<close> of the session and the
  database behind it. The result is the returned error, the events in order, and the
  state afterwards. The two cases of the type switch and the comparison with
  \<^verbatim>\<open>mgo.ErrNotFound\<close> are kept in the order of the source.
\<close>

definition RetryOnSocketFailure ::
  "('db \<Rightarrow> go_error option \<times> 'db) \<Rightarrow> ('db \<Rightarrow> 'db) \<Rightarrow> 'db \<Rightarrow> go_error option \<times> retry_event list \<times> 'db"
where
  "RetryOnSocketFailure block refresh d =
     (case block d of
        (None, d1) \<Rightarrow> (None, [Invoke None], d1)
      | (Some err, d1) \<Rightarrow>
          (case err of
             QueryError m \<Rightarrow> (Some err, [Invoke (Some err)], d1)
           | LastError m \<Rightarrow> (Some err, [Invoke (Some err)], d1)
           | _ \<Rightarrow>
               if err = ErrNotFound then (Some err, [Invoke (Some err)], d1)
               else
                 (let d2 = refresh d1;
                      (err2, d3) = block d2
                  in (err2, [Invoke (Some err), Refresh, LogRetry err, Invoke err2], d3))))"

text \<open>
  The recognised permanent errors, in the words of the specification: a malformed-query
  error, a server-side last-error report, not-found.
\<close>

definition permanent :: "go_error \<Rightarrow> bool" where
  "permanent e =
     (case e of QueryError m \<Rightarrow> True | LastError m \<Rightarrow> True | ErrNotFound \<Rightarrow> True
      | OtherError m \<Rightarrow> False)"

definition invocations :: "retry_event list \<Rightarrow> nat" where
  "invocations evs = length (filter (\<lambda>e. case e of Invoke r \<Rightarrow> True | _ \<Rightarrow> False) evs)"

definition refreshes :: "retry_event list \<Rightarrow> nat" where
  "refreshes evs = length (filter (\<lambda>e. e = Refresh) evs)"

subsection \<open>Package variables and parseFlags\<close>

text \<open>
  The package variables of \<^verbatim>\<open>main.go\<close> that the code below reads, as they are after
  \<^verbatim>\<open>flag.Parse()\<close>. \<^verbatim>\<open>int\<close> and \<^verbatim>\<open>int64\<close> flags are 64-bit here (the constant
  4294967295 assigned to the \<^verbatim>\<open>int\<close> \<^verbatim>\<open>maxOps\<close> does not compile otherwise); they are only
  compared, never computed with, so they are integers. \<^verbatim>\<open>sampleRate\<close> and
  \<^verbatim>\<open>socketTimeout\<close> reach only the statistics and the session set-up and are left out.
  \<open>logger\<close> is the pointer \<^verbatim>\<open>*Logger\<close>, \<open>None\<close> when nil.
\<close>

record 'lg globals =
  maxOps :: int
  numSkipOps :: int
  opsFilename :: string
  startTime :: int
  style :: string
  url :: string
  verbose :: bool
  workers :: int
  stderr :: string
  stdout :: string
  logger :: "'lg option"

subsection \<open>The collaborators of the start-up\<close>

text \<open>
  The reader and the dispatcher that \<^verbatim>\<open>main\<close> builds, named by their constructors. The
  factory handed to \<^verbatim>\<open>NewCyclicOpsReader\<close> opens \<^verbatim>\<open>opsFilename\<close> with
  \<^verbatim>\<open>NewFileByLineOpsReader\<close>, so both readers are over that file.
\<close>

datatype reader = FileByLineOpsReader string | CyclicOpsReader string

datatype dispatcher = BestEffortOpsDispatcher reader int | ByTimeOpsDispatcher reader int

text \<open>The calls of the start-up, in the order \<^verbatim>\<open>main\<close> makes them.\<close>

datatype setup_event =
    GOMAXPROCS int
  | CallNewLogger string string
  | MakeReader reader
  | CallSetStartTime reader int
  | CallSkipOps reader int
  | MakeDispatcher dispatcher

text \<open>
  What the absent constructors and reader methods return to \<^verbatim>\<open>main\<close>. An error of
  \<open>NewFileByLineOpsReader\<close>, \<open>SetStartTime\<close> or \<open>SkipOps\<close> goes to \<^verbatim>\<open>panicOnError\<close>.
  \<^verbatim>\<open>NewCyclicOpsReader\<close> returns no error; its factory panics when the file cannot be
  opened, which is the \<open>Some\<close> of \<open>NewCyclicOpsReader\<close> here (and of the two reader methods,
  when the cyclic reader calls the factory there). \<open>opsSent\<close> is everything the
  dispatcher sends on \<^verbatim>\<open>opsChan\<close> during the run, oldest first, nil as \<open>None\<close>. The
  reader is an object that the calls of the start-up change, so what its dispatcher
  sends depends on the calls made before: \<open>opsSent\<close> is given them, in order.
\<close>

record ('lg, 'op) collab =
  NewLogger :: "string \<Rightarrow> string \<Rightarrow> 'lg option \<times> go_error option"
  NewFileByLineOpsReader :: "string \<Rightarrow> go_error option"
  NewCyclicOpsReader :: "string \<Rightarrow> go_error option"
  SetStartTime :: "reader \<Rightarrow> int \<Rightarrow> go_error option"
  SkipOps :: "reader \<Rightarrow> int \<Rightarrow> go_error option"
  opsSent :: "setup_event list \<Rightarrow> dispatcher \<Rightarrow> 'op option list"

text \<open>
  \<^verbatim>\<open>parseFlags\<close>: the returned error, the calls made, and the package variables
  afterwards. Both outcomes of \<^verbatim>\<open>NewLogger\<close> end in \<^verbatim>\<open>return nil\<close>, as in the source.
\<close>

definition parseFlags ::
  "('lg, 'op) collab \<Rightarrow> 'lg globals \<Rightarrow> go_error option \<times> setup_event list \<times> 'lg globals"
where
  "parseFlags c g =
     (if style g \<noteq> ''stress'' \<and> style g \<noteq> ''real'' then
        (Some (OtherError (''Cannot recognize the style: '' @ style g)), [], g)
      else if workers g \<le> 0 then
        (Some (OtherError ''`workers` should be a positive number''), [], g)
      else
        (let g1 = (if maxOps g = 0 then g\<lparr>maxOps := 4294967295\<rparr> else g);
             (lg, err) = NewLogger c (stdout g1) (stderr g1);
             g2 = g1\<lparr>logger := lg\<rparr>
         in if err \<noteq> None then (None, [CallNewLogger (stdout g1) (stderr g1)], g2)
            else (None, [CallNewLogger (stdout g1) (stderr g1)], g2)))"

subsection \<open>The start of main\<close>

text \<open>
  A start-up computation: the calls made so far and either the panic that ended the
  process or a value. \<open>call\<close> is an external call followed by \<^verbatim>\<open>panicOnError\<close>.
\<close>

type_synonym 'a startup = "setup_event list \<times> (go_error + 'a)"

definition andThen :: "'a startup \<Rightarrow> ('a \<Rightarrow> 'b startup) \<Rightarrow> 'b startup" where
  "andThen x f =
     (case x of
        (evs, Inl e) \<Rightarrow> (evs, Inl e)
      | (evs, Inr a) \<Rightarrow> (case f a of (evs', r) \<Rightarrow> (evs @ evs', r)))"

definition call :: "setup_event \<Rightarrow> go_error option \<Rightarrow> unit startup" where
  "call ev err = ([ev], case err of Some e \<Rightarrow> Inl e | None \<Rightarrow> Inr ())"

definition skip :: "unit startup" where
  "skip = ([], Inr ())"

text \<open>
  Lines 112 to 148 of \<^verbatim>\<open>main\<close>: \<^verbatim>\<open>GOMAXPROCS\<close>, \<^verbatim>\<open>parseFlags\<close>, then the reader, its
  positioning and the dispatcher, once for each style, written twice as in the source.
  The result is the package variables and the dispatcher whose channel is \<^verbatim>\<open>opsChan\<close>.
\<close>

definition main_setup ::
  "('lg, 'op) collab \<Rightarrow> 'lg globals \<Rightarrow> ('lg globals \<times> dispatcher) startup"
where
  "main_setup c g0 =
     (case parseFlags c g0 of (err, evs, g) \<Rightarrow>
        andThen (GOMAXPROCS 100 # evs, case err of Some e \<Rightarrow> Inl e | None \<Rightarrow> Inr ()) (\<lambda>_.
          if style g = ''stress'' then
            (let reader = FileByLineOpsReader (opsFilename g) in
             andThen (call (MakeReader reader) (NewFileByLineOpsReader c (opsFilename g))) (\<lambda>_.
             andThen (if startTime g > 0
                      then call (CallSetStartTime reader (startTime g))
                             (SetStartTime c reader (startTime g))
                      else skip) (\<lambda>_.
             andThen (if numSkipOps g > 0
                      then call (CallSkipOps reader (numSkipOps g))
                             (SkipOps c reader (numSkipOps g))
                      else skip) (\<lambda>_.
               ([MakeDispatcher (BestEffortOpsDispatcher reader (maxOps g))],
                Inr (g, BestEffortOpsDispatcher reader (maxOps g)))))))
          else
            (let reader = CyclicOpsReader (opsFilename g) in
             andThen (call (MakeReader reader) (NewCyclicOpsReader c (opsFilename g))) (\<lambda>_.
             andThen (if startTime g > 0
                      then call (CallSetStartTime reader (startTime g))
                             (SetStartTime c reader (startTime g))
                      else skip) (\<lambda>_.
             andThen (if numSkipOps g > 0
                      then call (CallSkipOps reader (numSkipOps g))
                             (SkipOps c reader (numSkipOps g))
                      else skip) (\<lambda>_.
               ([MakeDispatcher (ByTimeOpsDispatcher reader (maxOps g))],
                Inr (g, ByTimeOpsDispatcher reader (maxOps g)))))))))"

subsection \<open>The goroutines\<close>

text \<open>
  The driver and the executor, as far as a worker uses them: \<^verbatim>\<open>mgo.Dial\<close>,
  \<^verbatim>\<open>exec.Execute(op)\<close>, \<^verbatim>\<open>session.Refresh()\<close> and \<^verbatim>\<open>session.Close()\<close>, each for the
  worker with the given number, acting on the state \<open>'db\<close> of the sessions and the
  database.
\<close>

record ('op, 'db) mongo =
  Dial :: "nat \<Rightarrow> 'db \<Rightarrow> go_error option \<times> 'db"
  Execute :: "nat \<Rightarrow> 'op \<Rightarrow> 'db \<Rightarrow> go_error option \<times> 'db"
  SessionRefresh :: "nat \<Rightarrow> 'db \<Rightarrow> 'db"
  SessionClose :: "nat \<Rightarrow> 'db \<Rightarrow> 'db"

text \<open>The lines \<^verbatim>\<open>logger.Error\<close> writes: the retry notice and the error of an op.\<close>

datatype log_line = RetryNotice go_error | OpError go_error

definition retry_lines :: "retry_event list \<Rightarrow> log_line list" where
  "retry_lines evs = concat (map (\<lambda>e. case e of LogRetry x \<Rightarrow> [RetryNotice x] | _ \<Rightarrow> []) evs)"

text \<open>
  Lines 169 to 176, the body of the loop of \<^verbatim>\<open>fetch\<close> for one op: the call of
  \<^verbatim>\<open>RetryOnSocketFailure\<close> and \<^verbatim>\<open>if verbose == true && err != nil { logger.Error(err) }\<close>.
  The result is the error, the lines given to \<^verbatim>\<open>logger.Error\<close>, and the state.
  The lines are recorded whether or not \<open>logger\<close> is nil.
\<close>

definition execute_op ::
  "bool \<Rightarrow> ('db \<Rightarrow> go_error option \<times> 'db) \<Rightarrow> ('db \<Rightarrow> 'db) \<Rightarrow> 'db
     \<Rightarrow> go_error option \<times> log_line list \<times> 'db"
where
  "execute_op vb block refresh d =
     (case RetryOnSocketFailure block refresh d of (err, evs, d') \<Rightarrow>
        (err,
         retry_lines evs @ (case err of Some e \<Rightarrow> if vb = True then [OpError e] else [] | None \<Rightarrow> []),
         d'))"

text \<open>
  Where a worker stands in \<^verbatim>\<open>fetch\<close>: before \<^verbatim>\<open>mgo.Dial\<close>; at \<^verbatim>\<open>op := <-opsChan\<close>;
  holding an op before line 173; before \<^verbatim>\<open>atomic.AddInt64\<close>; at \<^verbatim>\<open>exit <- 1\<close>; after
  the send, before the deferred \<^verbatim>\<open>session.Close()\<close>; returned.
\<close>

datatype 'op wpc = WStart | WRecv | WExec 'op | WCount | WSend | WFinish | WDone

text \<open>
  Where the reporter stands: at the test of its loop; in the body, before the sleep;
  after the loop, before the deferred \<^verbatim>\<open>report()\<close>; returned.
\<close>

datatype rpc = RCheck | RBody | RDefer | RDone

text \<open>
  What the reporter does: \<^verbatim>\<open>time.Sleep(5 * time.Second)\<close>, the \<^verbatim>\<open>report()\<close> of the loop
  body, and the deferred \<^verbatim>\<open>report()\<close>.
\<close>

datatype report_event = Sleep5 | Report | FinalReport

datatype tid = TMain | TReporter | TWorker nat

text \<open>
  The goroutines move one at a time; a move is the code between two of the places
  above. All workers and the reporter exist from the start: \<^verbatim>\<open>main\<close> starts them before
  it waits, and a goroutine that is not started yet is one that is chosen later. The
  call of \<^verbatim>\<open>RetryOnSocketFailure\<close>, with its one or two calls of \<^verbatim>\<open>Execute\<close>, is one
  move, the session being owned by its worker. The \<^verbatim>\<open>Infof\<close> lines,
  \<^verbatim>\<open>SetSocketTimeout\<close>, the statistics collectors and the latency channel have no part
  in what follows and are left out.

  The state shared by the goroutines. \<open>opsChan\<close> holds, oldest first, the values the
  dispatcher sends during the run that no worker has received yet (a worker that waits
  for the dispatcher is a worker that is chosen later); a worker at \<^verbatim>\<open><-opsChan\<close> is
  blocked when it is empty. \<open>opsExecuted\<close> is the \<^verbatim>\<open>int64\<close> counter. \<open>received\<close> is the
  local variable of the wait loop, \<open>returned\<close> says that \<^verbatim>\<open>main\<close> has returned (the
  process has ended), \<open>panicked\<close> that a goroutine has panicked (the process has
  crashed). \<open>reported\<close>, \<open>errlog\<close> and \<open>signals\<close> record the reporter's output, the lines
  given to \<^verbatim>\<open>logger.Error\<close>, and the workers whose send on \<^verbatim>\<open>exit\<close> was received, in
  order.
\<close>

record ('op, 'db) sys =
  opsChan :: "'op option list"
  opsExecuted :: "64 word"
  pcs :: "'op wpc list"
  received :: int
  returned :: bool
  panicked :: "go_error option"
  rpc :: rpc
  reported :: "report_event list"
  errlog :: "log_line list"
  signals :: "nat list"
  db :: 'db

text \<open>
  One step of worker \<open>i\<close>; \<open>None\<close> when it is blocked or has returned. The channel
  \<^verbatim>\<open>exit\<close> has no buffer: the send at \<open>WSend\<close> happens when \<^verbatim>\<open>main\<close> stands at
  \<^verbatim>\<open><-exit\<close>, which is when \<open>received < workers\<close>, and \<^verbatim>\<open>main\<close> then adds one to
  \<open>received\<close>.
\<close>

definition worker_step ::
  "'lg globals \<Rightarrow> ('op, 'db) mongo \<Rightarrow> nat \<Rightarrow> ('op, 'db) sys \<Rightarrow> ('op, 'db) sys option"
where
  "worker_step g m i s =
     (if i < length (pcs s) then
        (case pcs s ! i of
           WStart \<Rightarrow>
             (case Dial m i (db s) of
                (Some err, d) \<Rightarrow> Some (s\<lparr>panicked := Some err, db := d\<rparr>)
              | (None, d) \<Rightarrow> Some (s\<lparr>pcs := (pcs s)[i := WRecv], db := d\<rparr>))
         | WRecv \<Rightarrow>
             (case opsChan s of
                [] \<Rightarrow> None
              | None # q \<Rightarrow> Some (s\<lparr>opsChan := q, pcs := (pcs s)[i := WSend]\<rparr>)
              | Some op # q \<Rightarrow> Some (s\<lparr>opsChan := q, pcs := (pcs s)[i := WExec op]\<rparr>))
         | WExec op \<Rightarrow>
             (case execute_op (verbose g) (Execute m i op) (SessionRefresh m i) (db s) of
                (err, ls, d) \<Rightarrow>
                  Some (s\<lparr>pcs := (pcs s)[i := WCount], errlog := errlog s @ ls, db := d\<rparr>))
         | WCount \<Rightarrow>
             Some (s\<lparr>opsExecuted := opsExecuted s + 1, pcs := (pcs s)[i := WRecv]\<rparr>)
         | WSend \<Rightarrow>
             (if received s < workers g
              then Some (s\<lparr>received := received s + 1, signals := signals s @ [i],
                           pcs := (pcs s)[i := WFinish]\<rparr>)
              else None)
         | WFinish \<Rightarrow>
             Some (s\<lparr>pcs := (pcs s)[i := WDone], db := SessionClose m i (db s)\<rparr>)
         | WDone \<Rightarrow> None)
      else None)"

text \<open>
  One step of the reporter. The test of the loop reads \<open>opsExecuted\<close> as a signed
  64-bit number and compares it with \<^verbatim>\<open>int64(maxOps)\<close>.
\<close>

definition reporter_step :: "'lg globals \<Rightarrow> ('op, 'db) sys \<Rightarrow> ('op, 'db) sys option" where
  "reporter_step g s =
     (case rpc s of
        RCheck \<Rightarrow> Some (s\<lparr>rpc := (if sint (opsExecuted s) < maxOps g then RBody else RDefer)\<rparr>)
      | RBody \<Rightarrow> Some (s\<lparr>reported := reported s @ [Sleep5, Report], rpc := RCheck\<rparr>)
      | RDefer \<Rightarrow> Some (s\<lparr>reported := reported s @ [FinalReport], rpc := RDone\<rparr>)
      | RDone \<Rightarrow> None)"

text \<open>
  The wait loop of \<^verbatim>\<open>main\<close>: blocked at \<^verbatim>\<open><-exit\<close> while \<open>received < workers\<close>, it
  returns when the test fails.
\<close>

definition main_step :: "'lg globals \<Rightarrow> ('op, 'db) sys \<Rightarrow> ('op, 'db) sys option" where
  "main_step g s = (if received s < workers g then None else Some (s\<lparr>returned := True\<rparr>))"

text \<open>No goroutine runs once \<^verbatim>\<open>main\<close> has returned or a goroutine has panicked.\<close>

definition step ::
  "'lg globals \<Rightarrow> ('op, 'db) mongo \<Rightarrow> tid \<Rightarrow> ('op, 'db) sys \<Rightarrow> ('op, 'db) sys option"
where
  "step g m t s =
     (if returned s \<or> panicked s \<noteq> None then None
      else (case t of
              TMain \<Rightarrow> main_step g s
            | TReporter \<Rightarrow> reporter_step g s
            | TWorker i \<Rightarrow> worker_step g m i s))"

text \<open>
  A run under a schedule, the list of the goroutines chosen in turn. A goroutine that
  is chosen while it cannot move leaves the state as it is.
\<close>

fun run ::
  "'lg globals \<Rightarrow> ('op, 'db) mongo \<Rightarrow> tid list \<Rightarrow> ('op, 'db) sys \<Rightarrow> ('op, 'db) sys"
where
  "run g m [] s = s"
| "run g m (t # ts) s = (case step g m t s of None \<Rightarrow> run g m ts s | Some s' \<Rightarrow> run g m ts s')"

text \<open>
  The state when the goroutines start: \<open>workers\<close> workers before \<^verbatim>\<open>mgo.Dial\<close>, the
  reporter at its test, \<^verbatim>\<open>opsExecuted\<close> and \<open>received\<close> zero.
\<close>

definition init :: "'lg globals \<Rightarrow> 'op option list \<Rightarrow> 'db \<Rightarrow> ('op, 'db) sys" where
  "init g q d =
     \<lparr>opsChan = q, opsExecuted = 0, pcs = replicate (nat (workers g)) WStart, received = 0,
      returned = False, panicked = None, rpc = RCheck, reported = [], errlog = [],
      signals = [], db = d\<rparr>"

text \<open>
  The whole of \<^verbatim>\<open>main\<close>: the calls of the start-up and, unless it panicked, the state
  the goroutines reach under the schedule, on the channel of the dispatcher that the
  start-up has built.
\<close>

definition main ::
  "('lg, 'op) collab \<Rightarrow> ('op, 'db) mongo \<Rightarrow> 'lg globals \<Rightarrow> 'db \<Rightarrow> tid list
     \<Rightarrow> setup_event list \<times> (go_error + ('op, 'db) sys)"
where
  "main c m g0 d sch =
     (case main_setup c g0 of
        (evs, Inl e) \<Rightarrow> (evs, Inl e)
      | (evs, Inr (g, disp)) \<Rightarrow> (evs, Inr (run g m sch (init g (opsSent c evs disp) d))))"

subsection \<open>Readers and dispatchers, from the specification\<close>

text \<open>
  Modelled from the spec: the readers and the dispatchers of the package \<^verbatim>\<open>replay\<close>
  are not in \<^verbatim>\<open>main.go\<close>. The specification (4.1, 6) gives the Op Source a seek "to a
  starting absolute timestamp (skip all ops strictly before it)" and a skip of "a fixed
  count of leading ops". \<open>stamp\<close> reads the timestamp of an op. \<open>positioned\<close> is the rest
  of a recording after the calls of the start-up, each seek and each skip applied in
  the order of the calls.
\<close>

definition seek :: "('op \<Rightarrow> int) \<Rightarrow> int \<Rightarrow> 'op list \<Rightarrow> 'op list" where
  "seek stamp t ops = dropWhile (\<lambda>op. stamp op < t) ops"

definition positioned :: "('op \<Rightarrow> int) \<Rightarrow> setup_event list \<Rightarrow> 'op list \<Rightarrow> 'op list" where
  "positioned stamp evs ops =
     foldl (\<lambda>xs e. case e of
                      CallSetStartTime r t \<Rightarrow> seek stamp t xs
                    | CallSkipOps r n \<Rightarrow> drop (nat n) xs
                    | _ \<Rightarrow> xs) ops evs"

text \<open>
  The rest of a recording at the position the package variables ask for, by the seek
  and the skip of the specification: the seek to \<open>startTime\<close> when it is positive, then
  the skip of \<open>numSkipOps\<close> ops when it is positive.
\<close>

definition start_of :: "('op \<Rightarrow> int) \<Rightarrow> 'lg globals \<Rightarrow> 'op list \<Rightarrow> 'op list" where
  "start_of stamp g ops =
     (let sought = (if 0 < startTime g then seek stamp (startTime g) ops else ops)
      in if 0 < numSkipOps g then drop (nat (numSkipOps g)) sought else sought)"

text \<open>
  Modelled from the spec: a dispatcher "stops after \<^verbatim>\<open>maxOps\<close> values have been produced
  or the source is exhausted"; the cyclic reader is "a cyclic view over the Op Source
  that restarts it from the beginning upon exhaustion". \<open>files\<close> gives the recording in
  a file. \<open>delivered stamp files evs r n\<close> is what a dispatcher with the limit \<open>n\<close>
  produces from the reader \<open>r\<close> after the calls \<open>evs\<close>: the file reader gives the rest of
  the recording and ends; the cyclic reader gives that rest and then the whole
  recording again and again.
\<close>

definition delivered ::
  "('op \<Rightarrow> int) \<Rightarrow> (string \<Rightarrow> 'op list) \<Rightarrow> setup_event list \<Rightarrow> reader \<Rightarrow> nat \<Rightarrow> 'op list"
where
  "delivered stamp files evs r n =
     (case r of
        FileByLineOpsReader f \<Rightarrow> take n (positioned stamp evs (files f))
      | CyclicOpsReader f \<Rightarrow>
          if files f = [] then []
          else take n (positioned stamp evs (files f) @ concat (replicate n (files f))))"

text \<open>
  Modelled from the spec: "completion is signaled by sending one sentinel value per
  worker onto the shared queue", also for an empty source. \<open>dispatched stamp files w\<close> is
  what a dispatcher sends on its channel when there are \<open>w\<close> workers; it has the type
  of \<open>opsSent\<close>.
\<close>

definition dispatched ::
  "('op \<Rightarrow> int) \<Rightarrow> (string \<Rightarrow> 'op list) \<Rightarrow> nat \<Rightarrow> setup_event list \<Rightarrow> dispatcher
     \<Rightarrow> 'op option list"
where
  "dispatched stamp files w evs disp =
     map Some
       (case disp of
          BestEffortOpsDispatcher r n \<Rightarrow> delivered stamp files evs r (nat n)
        | ByTimeOpsDispatcher r n \<Rightarrow> delivered stamp files evs r (nat n))
     @ replicate w None"

subsection \<open>Observations on a run\<close>

text \<open>
  The constructor of the reader and the positioning calls that \<^verbatim>\<open>main\<close> makes for the
  package variables \<open>g\<close> all return nil.
\<close>

definition reader_ok :: "('lg, 'op) collab \<Rightarrow> 'lg globals \<Rightarrow> bool" where
  "reader_ok c g =
     (if style g = ''stress''
      then NewFileByLineOpsReader c (opsFilename g) = None
           \<and> (if 0 < startTime g
               then SetStartTime c (FileByLineOpsReader (opsFilename g)) (startTime g) = None
               else True)
           \<and> (if 0 < numSkipOps g
               then SkipOps c (FileByLineOpsReader (opsFilename g)) (numSkipOps g) = None
               else True)
      else NewCyclicOpsReader c (opsFilename g) = None
           \<and> (if 0 < startTime g
               then SetStartTime c (CyclicOpsReader (opsFilename g)) (startTime g) = None
               else True)
           \<and> (if 0 < numSkipOps g
               then SkipOps c (CyclicOpsReader (opsFilename g)) (numSkipOps g) = None
               else True))"

text \<open>The calls that position the reader, in the order they were made.\<close>

definition positioning :: "setup_event list \<Rightarrow> setup_event list" where
  "positioning evs =
     filter (\<lambda>e. case e of CallSetStartTime r t \<Rightarrow> True | CallSkipOps r n \<Rightarrow> True | _ \<Rightarrow> False) evs"

text \<open>
  What the workers have received so far from a channel that was sent \<open>q\<close>, and the
  ops (the values that are not nil) of a list of channel values.
\<close>

definition pulled :: "'op option list \<Rightarrow> ('op, 'db) sys \<Rightarrow> 'op option list" where
  "pulled q s = take (length q - length (opsChan s)) q"

definition ops_of :: "'op option list \<Rightarrow> 'op option list" where
  "ops_of xs = filter (\<lambda>x. x \<noteq> None) xs"

definition nils_of :: "'op option list \<Rightarrow> 'op option list" where
  "nils_of xs = filter (\<lambda>x. x = None) xs"

text \<open>
  A worker is in the middle of an op from the receive to the increment of the counter;
  it is past the nil once it has received it; it has signalled once its send on
  \<^verbatim>\<open>exit\<close> was received.
\<close>

definition mid_op :: "'op wpc \<Rightarrow> bool" where
  "mid_op pc = (case pc of WExec op \<Rightarrow> True | WCount \<Rightarrow> True | _ \<Rightarrow> False)"

definition past_nil :: "'op wpc \<Rightarrow> bool" where
  "past_nil pc = (case pc of WSend \<Rightarrow> True | WFinish \<Rightarrow> True | WDone \<Rightarrow> True | _ \<Rightarrow> False)"

definition signalled :: "'op wpc \<Rightarrow> bool" where
  "signalled pc = (case pc of WFinish \<Rightarrow> True | WDone \<Rightarrow> True | _ \<Rightarrow> False)"

definition in_flight :: "('op, 'db) sys \<Rightarrow> nat" where
  "in_flight s = length (filter mid_op (pcs s))"

text \<open>
  The steps a worker still has to take before it returns when the next value it
  receives is nil, and the steps left to the workers and \<^verbatim>\<open>main\<close> together when every
  op still in the channel is executed.
\<close>

definition cost :: "'op wpc \<Rightarrow> nat" where
  "cost pc =
     (case pc of WStart \<Rightarrow> 4 | WRecv \<Rightarrow> 3 | WExec op \<Rightarrow> 5 | WCount \<Rightarrow> 4 | WSend \<Rightarrow> 2
      | WFinish \<Rightarrow> 1 | WDone \<Rightarrow> 0)"

definition todo :: "('op, 'db) sys \<Rightarrow> nat" where
  "todo s =
     (if returned s then 0
      else 1 + 3 * length (ops_of (opsChan s)) + sum_list (map cost (pcs s)))"

subsection \<open>Invariants of a run\<close>

text \<open>
  What holds in every state that the goroutines reach from \<open>init g q d\<close>: the channel
  holds a rest of \<open>q\<close>; the counter is the number of ops received less the workers in
  the middle of an op; as many nils were received as there are workers past the nil;
  the signals received by \<^verbatim>\<open>main\<close> are those of the workers that have signalled, one
  each; \<^verbatim>\<open>main\<close> has returned only with \<open>received\<close> at \<open>workers\<close>.
\<close>

definition chan_inv :: "'lg globals \<Rightarrow> 'op option list \<Rightarrow> ('op, 'db) sys \<Rightarrow> bool" where
  "chan_inv g q s =
     (length (pcs s) = nat (workers g)
      \<and> (\<exists>p. q = p @ opsChan s
            \<and> opsExecuted s + of_nat (in_flight s) = of_nat (length (ops_of p))
            \<and> length (nils_of p) = length (filter past_nil (pcs s))))"

definition exit_inv :: "'lg globals \<Rightarrow> ('op, 'db) sys \<Rightarrow> bool" where
  "exit_inv g s =
     (received s = int (length (signals s))
      \<and> distinct (signals s)
      \<and> set (signals s) = {i. i < length (pcs s) \<and> signalled (pcs s ! i)}
      \<and> (returned s \<longrightarrow> workers g \<le> received s))"

text \<open>
  The output of the reporter is a number of rounds of the loop (a sleep, then a
  report), followed by the deferred report once the reporter has returned.
\<close>

definition report_inv :: "('op, 'db) sys \<Rightarrow> bool" where
  "report_inv s =
     (\<exists>k. reported s =
        concat (replicate k [Sleep5, Report]) @ (if rpc s = RDone then [FinalReport] else []))"

subsection \<open>A small configuration\<close>

text \<open>
  Package variables, collaborators and a driver on which the model can be run: ops are
  numbers, the state of the database is the number of calls of \<^verbatim>\<open>Execute\<close> so far, and
  \<open>example_mongo errs\<close> answers the \<open>k\<close>-th call of \<^verbatim>\<open>Execute\<close> with \<open>errs ! k\<close> (nil
  after the end of the list).
\<close>

definition example_globals :: "string \<Rightarrow> int \<Rightarrow> int \<Rightarrow> bool \<Rightarrow> unit globals" where
  "example_globals st w mx vb =
     \<lparr>maxOps = mx, numSkipOps = 2, opsFilename = ''ops.json'', startTime = 1396456709419,
      style = st, url = ''localhost'', verbose = vb, workers = w, stderr = [], stdout = [],
      logger = None\<rparr>"

definition example_collab :: "go_error option \<Rightarrow> nat option list \<Rightarrow> (unit, nat) collab" where
  "example_collab lgerr q =
     \<lparr>NewLogger = (\<lambda>out err. (case lgerr of None \<Rightarrow> Some () | Some e \<Rightarrow> None, lgerr)),
      NewFileByLineOpsReader = (\<lambda>f. None), NewCyclicOpsReader = (\<lambda>f. None),
      SetStartTime = (\<lambda>r t. None), SkipOps = (\<lambda>r n. None), opsSent = (\<lambda>evs d. q)\<rparr>"

definition example_block :: "go_error option list \<Rightarrow> nat \<Rightarrow> go_error option \<times> nat" where
  "example_block errs k = (if k < length errs then errs ! k else None, Suc k)"

definition example_mongo :: "go_error option list \<Rightarrow> (nat, nat) mongo" where
  "example_mongo errs =
     \<lparr>Dial = (\<lambda>i d. (None, d)), Execute = (\<lambda>i op. example_block errs),
      SessionRefresh = (\<lambda>i d. d), SessionClose = (\<lambda>i d. d)\<rparr>"

definition example_refresh :: "nat \<Rightarrow> nat" where
  "example_refresh d = d"

definition long_source :: "nat list" where
  "long_source = replicate 4294967296 0"

text \<open>
  Collaborators whose dispatcher is the one of the specification, for two workers, over
  recordings whose ops are numbers that are their own timestamps; \<open>NewLogger\<close> fails
  when \<open>lgerr\<close> is an error.
\<close>

definition replay_collab :: "go_error option \<Rightarrow> nat list \<Rightarrow> (unit, nat) collab" where
  "replay_collab lgerr recording =
     (example_collab lgerr [])\<lparr>opsSent := dispatched int (\<lambda>f. recording) 2\<rparr>"

text \<open>
  A run of two workers with \<open>maxOps = 2\<close> in verbose mode over the channel
  \<open>[Some 5, Some 6, None, None]\<close>: the first \<^verbatim>\<open>Execute\<close> fails with a socket error, the
  second succeeds, the third returns \<^verbatim>\<open>ErrNotFound\<close>. \<open>busy_schedule\<close> takes both workers
  through their ops and their sends; \<open>example_schedule\<close> then lets \<^verbatim>\<open>main\<close> return.
\<close>

definition busy_schedule :: "tid list" where
  "busy_schedule =
     [TWorker 0, TWorker 1, TReporter, TWorker 0, TWorker 1, TWorker 0, TWorker 0, TWorker 1,
      TMain, TWorker 0, TWorker 1, TWorker 0, TWorker 1, TReporter, TWorker 1, TWorker 1]"

definition example_schedule :: "tid list" where
  "example_schedule = busy_schedule @ [TMain, TReporter, TWorker 0]"

definition example_init :: "(nat, nat) sys" where
  "example_init = init (example_globals ''stress'' 2 2 True) [Some 5, Some 6, None, None] 0"

definition example_run :: "tid list \<Rightarrow> (nat, nat) sys" where
  "example_run sch =
     run (example_globals ''stress'' 2 2 True)
       (example_mongo [Some (OtherError ''EOF''), None, Some ErrNotFound]) sch example_init"

text \<open>
  The package variables of a run in the style \<open>st\<close> with the limit \<open>mx\<close> that starts at
  the timestamp \<open>t\<close> and skips \<open>n\<close> ops, for two workers; a schedule that takes two
  workers through one op and their sends and lets \<^verbatim>\<open>main\<close> return.
\<close>

definition replay_globals :: "string \<Rightarrow> int \<Rightarrow> int \<Rightarrow> int \<Rightarrow> unit globals" where
  "replay_globals st mx t n = (example_globals st 2 mx False)\<lparr>startTime := t, numSkipOps := n\<rparr>"

definition short_schedule :: "tid list" where
  "short_schedule =
     [TWorker 0, TWorker 1, TWorker 0, TWorker 0, TWorker 0, TWorker 0, TWorker 1, TWorker 0,
      TWorker 1, TMain]"

section \<open>Properties\<close>

subsection \<open>The start-up\<close>

lemma parseFlags_invalid:
  "(style g \<noteq> ''stress'' \<and> style g \<noteq> ''real'') \<or> workers g \<le> 0 \<Longrightarrow>
     \<exists>e. parseFlags c g = (Some e, [], g)"
  by (auto simp: parseFlags_def)

lemma parseFlags_valid:
  assumes "style g = ''stress'' \<or> style g = ''real''" and "0 < workers g"
  shows "parseFlags c g =
     (None, [CallNewLogger (stdout g) (stderr g)],
      g\<lparr>maxOps := (if maxOps g = 0 then 4294967295 else maxOps g),
        logger := fst (NewLogger c (stdout g) (stderr g))\<rparr>)"
  using assms by (auto simp: parseFlags_def Let_def split: prod.splits)

lemma andThen_Inl [simp]: "andThen (evs, Inl e) f = (evs, Inl e)"
  by (simp add: andThen_def)

lemma andThen_Inr [simp]: "andThen (evs, Inr a) f = (evs @ fst (f a), snd (f a))"
  by (simp add: andThen_def split: prod.splits)

lemma call_None [simp]: "call ev None = ([ev], Inr ())"
  by (simp add: call_def)

lemma call_Some [simp]: "call ev (Some e) = ([ev], Inl e)"
  by (simp add: call_def)

lemma skip_simp [simp]: "skip = ([], Inr ())"
  by (simp add: skip_def)

lemma main_setup_stress:
  assumes "style g = ''stress''" and "0 < workers g"
  shows "main_setup c g =
     andThen ([GOMAXPROCS 100, CallNewLogger (stdout g) (stderr g)], Inr ()) (\<lambda>_.
       andThen (call (MakeReader (FileByLineOpsReader (opsFilename g)))
                  (NewFileByLineOpsReader c (opsFilename g))) (\<lambda>_.
       andThen (if startTime g > 0
                then call (CallSetStartTime (FileByLineOpsReader (opsFilename g)) (startTime g))
                       (SetStartTime c (FileByLineOpsReader (opsFilename g)) (startTime g))
                else skip) (\<lambda>_.
       andThen (if numSkipOps g > 0
                then call (CallSkipOps (FileByLineOpsReader (opsFilename g)) (numSkipOps g))
                       (SkipOps c (FileByLineOpsReader (opsFilename g)) (numSkipOps g))
                else skip) (\<lambda>_.
         ([MakeDispatcher (BestEffortOpsDispatcher (FileByLineOpsReader (opsFilename g))
             (if maxOps g = 0 then 4294967295 else maxOps g))],
          Inr (g\<lparr>maxOps := (if maxOps g = 0 then 4294967295 else maxOps g),
                  logger := fst (NewLogger c (stdout g) (stderr g))\<rparr>,
               BestEffortOpsDispatcher (FileByLineOpsReader (opsFilename g))
                 (if maxOps g = 0 then 4294967295 else maxOps g)))))))"
  using assms by (simp add: main_setup_def parseFlags_valid Let_def)

lemma main_setup_real:
  assumes "style g = ''real''" and "0 < workers g"
  shows "main_setup c g =
     andThen ([GOMAXPROCS 100, CallNewLogger (stdout g) (stderr g)], Inr ()) (\<lambda>_.
       andThen (call (MakeReader (CyclicOpsReader (opsFilename g)))
                  (NewCyclicOpsReader c (opsFilename g))) (\<lambda>_.
       andThen (if startTime g > 0
                then call (CallSetStartTime (CyclicOpsReader (opsFilename g)) (startTime g))
                       (SetStartTime c (CyclicOpsReader (opsFilename g)) (startTime g))
                else skip) (\<lambda>_.
       andThen (if numSkipOps g > 0
                then call (CallSkipOps (CyclicOpsReader (opsFilename g)) (numSkipOps g))
                       (SkipOps c (CyclicOpsReader (opsFilename g)) (numSkipOps g))
                else skip) (\<lambda>_.
         ([MakeDispatcher (ByTimeOpsDispatcher (CyclicOpsReader (opsFilename g))
             (if maxOps g = 0 then 4294967295 else maxOps g))],
          Inr (g\<lparr>maxOps := (if maxOps g = 0 then 4294967295 else maxOps g),
                  logger := fst (NewLogger c (stdout g) (stderr g))\<rparr>,
               ByTimeOpsDispatcher (CyclicOpsReader (opsFilename g))
                 (if maxOps g = 0 then 4294967295 else maxOps g)))))))"
  using assms by (simp add: main_setup_def parseFlags_valid Let_def)

lemma main_setup_invalid:
  assumes "(style g \<noteq> ''stress'' \<and> style g \<noteq> ''real'') \<or> workers g \<le> 0"
  shows "\<exists>e. parseFlags c g = (Some e, [], g) \<and> main_setup c g = ([GOMAXPROCS 100], Inl e)"
proof -
  from parseFlags_invalid [OF assms] obtain e where "parseFlags c g = (Some e, [], g)" ..
  then show ?thesis by (simp add: main_setup_def)
qed

lemma concat_replicate_nth:
  "xs \<noteq> [] \<Longrightarrow> k < n * length xs \<Longrightarrow> concat (replicate n xs) ! k = xs ! (k mod length xs)"
proof (induction n arbitrary: k)
  case 0
  then show ?case by simp
next
  case (Suc n)
  show ?case
  proof (cases "k < length xs")
    case True
    then show ?thesis by (simp add: nth_append)
  next
    case False
    then have "k - length xs < n * length xs" using Suc.prems by simp
    from Suc.IH [OF Suc.prems(1) this] False show ?thesis
      by (simp add: nth_append le_mod_geq)
  qed
qed

text \<open>
  C5: when the style is neither "stress" nor "real", or the number of workers is not
  positive, \<^verbatim>\<open>parseFlags\<close> returns an error and \<^verbatim>\<open>main\<close> panics with it. The only call
  made before is \<^verbatim>\<open>runtime.GOMAXPROCS(100)\<close>: no reader is opened, and there is no state
  of the goroutines, so no worker was started and no op executed, whatever the
  collaborators, the driver and the schedule are.
\<close>

theorem invalid_flags_fatal:
  assumes "(style g \<noteq> ''stress'' \<and> style g \<noteq> ''real'') \<or> workers g \<le> 0"
  shows "\<exists>e. fst (parseFlags c g) = Some e \<and> main c m g d sch = ([GOMAXPROCS 100], Inl e)"
proof -
  have "\<exists>e. parseFlags c g = (Some e, [], g) \<and> main_setup c g = ([GOMAXPROCS 100], Inl e)"
    using assms by (rule main_setup_invalid)
  then show ?thesis by (auto simp: main_def)
qed

theorem invalid_flags_fatal_witness:
  "(\<exists>e. fst (parseFlags (example_collab None [Some 1, None]) (example_globals ''fast'' 2 10 False)) = Some e
       \<and> main (example_collab None [Some 1, None]) (example_mongo []) (example_globals ''fast'' 2 10 False)
            (0::nat) [TWorker 0, TWorker 0, TWorker 0]
          = ([GOMAXPROCS 100], Inl e))
   \<and> (\<exists>e. fst (parseFlags (example_collab None [Some 1, None]) (example_globals ''real'' 0 10 False)) = Some e
       \<and> main (example_collab None [Some 1, None]) (example_mongo []) (example_globals ''real'' 0 10 False)
            (0::nat) [TWorker 0, TWorker 0, TWorker 0]
          = ([GOMAXPROCS 100], Inl e))"
proof -
  have a: "(style (example_globals ''fast'' 2 10 False) \<noteq> ''stress''
            \<and> style (example_globals ''fast'' 2 10 False) \<noteq> ''real'')
           \<or> workers (example_globals ''fast'' 2 10 False) \<le> 0"
    by (simp add: example_globals_def)
  have b: "(style (example_globals ''real'' 0 10 False) \<noteq> ''stress''
            \<and> style (example_globals ''real'' 0 10 False) \<noteq> ''real'')
           \<or> workers (example_globals ''real'' 0 10 False) \<le> 0"
    by (simp add: example_globals_def)
  show ?thesis
    using invalid_flags_fatal [OF a, where c = "example_collab None [Some 1, None]"
        and m = "example_mongo []" and d = "0::nat" and sch = "[TWorker 0, TWorker 0, TWorker 0]"]
      invalid_flags_fatal [OF b, where c = "example_collab None [Some 1, None]"
        and m = "example_mongo []" and d = "0::nat" and sch = "[TWorker 0, TWorker 0, TWorker 0]"]
    by simp
qed

text \<open>
  C10: with a valid style and a positive number of workers, when \<open>startTime > 0\<close> and
  \<open>numSkipOps > 0\<close> and the reader was made and \<^verbatim>\<open>SetStartTime\<close> returned nil, the calls
  that position the reader are \<^verbatim>\<open>SetStartTime(startTime)\<close> and then
  \<^verbatim>\<open>SkipOps(numSkipOps)\<close>, these two in this order, in the branch of "stress" (on the
  file reader) and in the branch of "real" (on the cyclic reader) alike.
\<close>

theorem positioning_order:
  assumes "style g = ''stress'' \<or> style g = ''real''" and "0 < workers g"
    and "0 < startTime g" and "0 < numSkipOps g"
    and "style g = ''stress'' \<Longrightarrow> NewFileByLineOpsReader c (opsFilename g) = None"
    and "style g = ''real'' \<Longrightarrow> NewCyclicOpsReader c (opsFilename g) = None"
    and "r = (if style g = ''stress'' then FileByLineOpsReader (opsFilename g)
              else CyclicOpsReader (opsFilename g))"
    and "SetStartTime c r (startTime g) = None"
  shows "positioning (fst (main_setup c g)) =
           [CallSetStartTime r (startTime g), CallSkipOps r (numSkipOps g)]"
proof (cases "style g = ''stress''")
  case True
  show ?thesis unfolding main_setup_stress [OF True assms(2)]
    using assms(3-8) True
    by (cases "SkipOps c (FileByLineOpsReader (opsFilename g)) (numSkipOps g)")
       (simp_all add: positioning_def)
next
  case False
  then have r: "style g = ''real''" using assms(1) by simp
  show ?thesis unfolding main_setup_real [OF r assms(2)]
    using assms(3-8) r
    by (cases "SkipOps c (CyclicOpsReader (opsFilename g)) (numSkipOps g)")
       (simp_all add: positioning_def)
qed

theorem positioning_order_witness:
  "positioning (fst (main_setup (example_collab None [Some 1, None])
       (example_globals ''stress'' 2 10 False))) =
     [CallSetStartTime (FileByLineOpsReader ''ops.json'') 1396456709419,
      CallSkipOps (FileByLineOpsReader ''ops.json'') 2]
   \<and> positioning (fst (main_setup (example_collab None [Some 1, None])
       (example_globals ''real'' 2 10 False))) =
     [CallSetStartTime (CyclicOpsReader ''ops.json'') 1396456709419,
      CallSkipOps (CyclicOpsReader ''ops.json'') 2]"
  using positioning_order [of "example_globals ''stress'' 2 10 False"
      "example_collab None [Some 1, None]" "FileByLineOpsReader ''ops.json''"]
    positioning_order [of "example_globals ''real'' 2 10 False"
      "example_collab None [Some 1, None]" "CyclicOpsReader ''ops.json''"]
  by (simp add: example_globals_def example_collab_def)

subsection \<open>Retry and logging of one op\<close>

text \<open>
  C1: when the first call of the block returns nil or a permanent error (a
  \<^verbatim>\<open>QueryError\<close>, a \<^verbatim>\<open>LastError\<close> or \<^verbatim>\<open>ErrNotFound\<close>), \<^verbatim>\<open>RetryOnSocketFailure\<close> calls the
  block once, does not refresh the session, and returns that result. For every other
  error it calls the block, refreshes the session once, logs the retry, calls the block
  once more on the refreshed session and returns what the second call returned,
  whatever that is.
\<close>

theorem retry_policy:
  "(fst (block d) = None \<or> (\<exists>e. fst (block d) = Some e \<and> permanent e) \<longrightarrow>
      (case RetryOnSocketFailure block refresh d of (r, evs, d') \<Rightarrow>
         evs = [Invoke (fst (block d))] \<and> invocations evs = 1 \<and> refreshes evs = 0
         \<and> r = fst (block d) \<and> d' = snd (block d)))
   \<and> ((\<exists>e. fst (block d) = Some e \<and> \<not> permanent e) \<longrightarrow>
      (case RetryOnSocketFailure block refresh d of (r, evs, d') \<Rightarrow>
         evs = [Invoke (fst (block d)), Refresh, LogRetry (the (fst (block d))), Invoke r]
         \<and> invocations evs = 2 \<and> refreshes evs = 1
         \<and> r = fst (block (refresh (snd (block d))))
         \<and> d' = snd (block (refresh (snd (block d))))))"
  by (auto simp: RetryOnSocketFailure_def permanent_def invocations_def refreshes_def
      split: prod.splits option.splits go_error.splits)

theorem retry_policy_witness:
  "RetryOnSocketFailure (example_block [Some ErrNotFound, None]) example_refresh 0 =
     (Some ErrNotFound, [Invoke (Some ErrNotFound)], 1)
   \<and> RetryOnSocketFailure (example_block [Some (OtherError ''EOF''), Some (OtherError ''i/o timeout'')])
        example_refresh 0 =
     (Some (OtherError ''i/o timeout''),
      [Invoke (Some (OtherError ''EOF'')), Refresh, LogRetry (OtherError ''EOF''),
       Invoke (Some (OtherError ''i/o timeout''))], 2)"
  using retry_policy [of "example_block [Some ErrNotFound, None]" 0 example_refresh]
    retry_policy [of "example_block [Some (OtherError ''EOF''), Some (OtherError ''i/o timeout'')]"
      0 example_refresh]
  by (auto simp: example_block_def example_refresh_def permanent_def split: prod.splits)

text \<open>
  C7, as amended: for each op, the lines given to \<^verbatim>\<open>logger.Error\<close> are the retry
  notice, with the error of the first attempt, exactly when that error is not nil and
  not permanent, whether verbose mode is on or off; followed by the final error of the
  op exactly when verbose mode is on and that error is not nil.
\<close>

theorem verbose_logging:
  "fst (snd (execute_op vb block refresh d)) =
     (case fst (block d) of None \<Rightarrow> [] | Some e \<Rightarrow> if permanent e then [] else [RetryNotice e])
     @ (case fst (execute_op vb block refresh d) of
          None \<Rightarrow> [] | Some e \<Rightarrow> if vb then [OpError e] else [])
   \<and> fst (execute_op vb block refresh d) = fst (RetryOnSocketFailure block refresh d)"
  by (auto simp: execute_op_def RetryOnSocketFailure_def permanent_def retry_lines_def
      split: prod.splits option.splits go_error.splits)

theorem verbose_logging_witness:
  "fst (snd (execute_op True
       (example_block [Some (OtherError ''EOF''), Some (OtherError ''i/o timeout'')])
       example_refresh 0)) =
     [RetryNotice (OtherError ''EOF''), OpError (OtherError ''i/o timeout'')]
   \<and> fst (snd (execute_op False (example_block [Some ErrNotFound]) example_refresh 0)) = []"
  using verbose_logging [of True
      "example_block [Some (OtherError ''EOF''), Some (OtherError ''i/o timeout'')]"
      example_refresh 0]
    verbose_logging [of False "example_block [Some ErrNotFound]" example_refresh 0]
  by (auto simp: example_block_def example_refresh_def permanent_def execute_op_def
      RetryOnSocketFailure_def split: prod.splits)

text \<open>
  The claim as stated fails: with verbose mode off, an op whose first attempt fails
  with a socket error has its retry notice logged.
\<close>

theorem verbose_logging_counterexample:
  "execute_op False (example_block [Some (OtherError ''EOF'')]) example_refresh 0 =
     (None, [RetryNotice (OtherError ''EOF'')], 2)"
  by (simp add: execute_op_def RetryOnSocketFailure_def example_block_def example_refresh_def
      retry_lines_def)

subsection \<open>The goroutines: steps and invariants\<close>

lemma length_filter_update:
  "i < length xs \<Longrightarrow>
     length (filter P (xs[i := y])) + (if P (xs ! i) then 1 else 0) =
     length (filter P xs) + (if P y then 1 else 0)"
proof (induction xs arbitrary: i)
  case Nil
  then show ?case by simp
next
  case (Cons x xs)
  show ?case
  proof (cases i)
    case 0
    then show ?thesis by simp
  next
    case (Suc j)
    with Cons.prems have "j < length xs" by simp
    from Cons.IH [OF this] Suc show ?thesis by simp
  qed
qed

lemma sum_list_map_update:
  "i < length xs \<Longrightarrow>
     sum_list (map f (xs[i := y])) + f (xs ! i) = sum_list (map f xs) + (f y :: nat)"
proof (induction xs arbitrary: i)
  case Nil
  then show ?case by simp
next
  case (Cons x xs)
  show ?case
  proof (cases i)
    case 0
    then show ?thesis by simp
  next
    case (Suc j)
    with Cons.prems have "j < length xs" by simp
    from Cons.IH [OF this] Suc show ?thesis by simp
  qed
qed

text \<open>The moves of a worker, one rule for each place in \<^verbatim>\<open>fetch\<close>.\<close>

lemma worker_step_cases:
  assumes "worker_step g m i s = Some s'"
  obtains
    (dial_fail) e d where "i < length (pcs s)" "pcs s ! i = WStart" "Dial m i (db s) = (Some e, d)"
      "s' = s\<lparr>panicked := Some e, db := d\<rparr>"
  | (dial_ok) d where "i < length (pcs s)" "pcs s ! i = WStart" "Dial m i (db s) = (None, d)"
      "s' = s\<lparr>pcs := (pcs s)[i := WRecv], db := d\<rparr>"
  | (recv_nil) c where "i < length (pcs s)" "pcs s ! i = WRecv" "opsChan s = None # c"
      "s' = s\<lparr>opsChan := c, pcs := (pcs s)[i := WSend]\<rparr>"
  | (recv_op) op c where "i < length (pcs s)" "pcs s ! i = WRecv" "opsChan s = Some op # c"
      "s' = s\<lparr>opsChan := c, pcs := (pcs s)[i := WExec op]\<rparr>"
  | (exec) op err ls d where "i < length (pcs s)" "pcs s ! i = WExec op"
      "execute_op (verbose g) (Execute m i op) (SessionRefresh m i) (db s) = (err, ls, d)"
      "s' = s\<lparr>pcs := (pcs s)[i := WCount], errlog := errlog s @ ls, db := d\<rparr>"
  | (count) "i < length (pcs s)" "pcs s ! i = WCount"
      "s' = s\<lparr>opsExecuted := opsExecuted s + 1, pcs := (pcs s)[i := WRecv]\<rparr>"
  | (send) "i < length (pcs s)" "pcs s ! i = WSend" "received s < workers g"
      "s' = s\<lparr>received := received s + 1, signals := signals s @ [i],
               pcs := (pcs s)[i := WFinish]\<rparr>"
  | (finish) "i < length (pcs s)" "pcs s ! i = WFinish"
      "s' = s\<lparr>pcs := (pcs s)[i := WDone], db := SessionClose m i (db s)\<rparr>"
proof -
  from assms have i: "i < length (pcs s)"
    by (simp add: worker_step_def split: if_splits)
  show ?thesis
  proof (cases "pcs s ! i")
    case WStart
    then show ?thesis using assms i dial_fail dial_ok
      by (cases "Dial m i (db s)"; cases "fst (Dial m i (db s))")
         (auto simp: worker_step_def)
  next
    case WRecv
    then show ?thesis using assms i recv_nil recv_op
      by (auto simp: worker_step_def split: list.splits option.splits)
  next
    case (WExec op)
    then show ?thesis using assms i exec
      by (auto simp: worker_step_def split: prod.splits)
  next
    case WCount
    then show ?thesis using assms i count by (auto simp: worker_step_def)
  next
    case WSend
    then show ?thesis using assms i send by (auto simp: worker_step_def split: if_splits)
  next
    case WFinish
    then show ?thesis using assms i finish by (auto simp: worker_step_def)
  next
    case WDone
    then show ?thesis using assms i by (auto simp: worker_step_def)
  qed
qed

lemma reporter_step_cases:
  assumes "reporter_step g s = Some s'"
  obtains
    (check) "rpc s = RCheck"
      "s' = s\<lparr>rpc := (if sint (opsExecuted s) < maxOps g then RBody else RDefer)\<rparr>"
  | (body) "rpc s = RBody" "s' = s\<lparr>reported := reported s @ [Sleep5, Report], rpc := RCheck\<rparr>"
  | (final) "rpc s = RDefer" "s' = s\<lparr>reported := reported s @ [FinalReport], rpc := RDone\<rparr>"
  using assms by (cases "rpc s") (auto simp: reporter_step_def)

lemma main_step_cases:
  assumes "main_step g s = Some s'"
  obtains "\<not> received s < workers g" "s' = s\<lparr>returned := True\<rparr>"
  using assms by (auto simp: main_step_def split: if_splits)

lemma step_cases:
  assumes "step g m t s = Some s'"
  obtains
    (main) "\<not> returned s" "panicked s = None" "t = TMain" "main_step g s = Some s'"
  | (reporter) "\<not> returned s" "panicked s = None" "t = TReporter" "reporter_step g s = Some s'"
  | (worker) i where "\<not> returned s" "panicked s = None" "t = TWorker i"
      "worker_step g m i s = Some s'"
  using assms by (cases t) (auto simp: step_def split: if_splits)

lemma chan_invI:
  assumes "length (pcs s) = nat (workers g)" and "q = p @ opsChan s"
    and "opsExecuted s + of_nat (in_flight s) = of_nat (length (ops_of p))"
    and "length (nils_of p) = length (filter past_nil (pcs s))"
  shows "chan_inv g q s"
  using assms unfolding chan_inv_def by blast

lemma chan_inv_worker:
  assumes "chan_inv g q s" and "worker_step g m i s = Some s'"
  shows "chan_inv g q s'"
proof -
  from assms(1) obtain p where len: "length (pcs s) = nat (workers g)"
    and q: "q = p @ opsChan s"
    and cnt: "opsExecuted s + of_nat (in_flight s) = of_nat (length (ops_of p))"
    and nil: "length (nils_of p) = length (filter past_nil (pcs s))"
    unfolding chan_inv_def by blast
  note defs = in_flight_def mid_op_def past_nil_def ops_of_def nils_of_def
  from assms(2) show ?thesis
  proof (cases rule: worker_step_cases)
    case (dial_fail e d)
    show ?thesis
      by (rule chan_invI [where p = p]) (use len q cnt nil dial_fail in \<open>simp_all add: defs\<close>)
  next
    case (dial_ok d)
    from length_filter_update [OF dial_ok(1), of mid_op WRecv]
      length_filter_update [OF dial_ok(1), of past_nil WRecv]
    show ?thesis
      by (intro chan_invI [where p = p]) (use len q cnt nil dial_ok in \<open>simp_all add: defs\<close>)
  next
    case (recv_nil c)
    from length_filter_update [OF recv_nil(1), of mid_op WSend]
      length_filter_update [OF recv_nil(1), of past_nil WSend]
    show ?thesis
      by (intro chan_invI [where p = "p @ [None]"])
         (use len q cnt nil recv_nil in \<open>simp_all add: defs\<close>)
  next
    case (recv_op op c)
    from length_filter_update [OF recv_op(1), of mid_op "WExec op"]
      length_filter_update [OF recv_op(1), of past_nil "WExec op"]
    show ?thesis
      by (intro chan_invI [where p = "p @ [Some op]"])
         (use len q cnt nil recv_op in \<open>simp_all add: defs\<close>)
  next
    case (exec op err ls d)
    from length_filter_update [OF exec(1), of mid_op WCount]
      length_filter_update [OF exec(1), of past_nil WCount]
    show ?thesis
      by (intro chan_invI [where p = p]) (use len q cnt nil exec in \<open>simp_all add: defs\<close>)
  next
    case count
    from length_filter_update [OF count(1), of mid_op WRecv]
      length_filter_update [OF count(1), of past_nil WRecv]
    have a: "length (filter mid_op ((pcs s)[i := WRecv])) + 1 = length (filter mid_op (pcs s))"
      and b: "length (filter past_nil ((pcs s)[i := WRecv])) = length (filter past_nil (pcs s))"
      using count by (simp_all add: defs)
    have "opsExecuted s + 1 + of_nat (length (filter mid_op ((pcs s)[i := WRecv])))
        = opsExecuted s + of_nat (length (filter mid_op ((pcs s)[i := WRecv])) + 1)"
      by simp
    also have "\<dots> = of_nat (length (ops_of p))" using cnt a by (simp add: in_flight_def)
    finally show ?thesis
      by (intro chan_invI [where p = p]) (use len q nil b count in \<open>simp_all add: in_flight_def\<close>)
  next
    case send
    from length_filter_update [OF send(1), of mid_op WFinish]
      length_filter_update [OF send(1), of past_nil WFinish]
    show ?thesis
      by (intro chan_invI [where p = p]) (use len q cnt nil send in \<open>simp_all add: defs\<close>)
  next
    case finish
    from length_filter_update [OF finish(1), of mid_op WDone]
      length_filter_update [OF finish(1), of past_nil WDone]
    show ?thesis
      by (intro chan_invI [where p = p]) (use len q cnt nil finish in \<open>simp_all add: defs\<close>)
  qed
qed

lemma chan_inv_step:
  assumes "chan_inv g q s" and "step g m t s = Some s'"
  shows "chan_inv g q s'"
  using assms(2)
proof (cases rule: step_cases)
  case main
  from main(4) have "s' = s\<lparr>returned := True\<rparr>" by (rule main_step_cases)
  then show ?thesis using assms(1) by (simp add: chan_inv_def in_flight_def)
next
  case reporter
  from reporter(4) show ?thesis
    by (cases rule: reporter_step_cases)
       (use assms(1) in \<open>simp_all add: chan_inv_def in_flight_def\<close>)
next
  case (worker i)
  from assms(1) worker(4) show ?thesis by (rule chan_inv_worker)
qed

lemma signalled_update:
  "i < length xs \<Longrightarrow>
     {j. j < length (xs[i := y]) \<and> signalled (xs[i := y] ! j)} =
       (if signalled y then insert i {j. j < length xs \<and> signalled (xs ! j)}
        else {j. j < length xs \<and> signalled (xs ! j)} - {i})"
  by (auto simp: nth_list_update)

lemma exit_inv_worker:
  assumes "exit_inv g s" and "\<not> returned s" and "worker_step g m i s = Some s'"
  shows "exit_inv g s' \<and> \<not> returned s'"
proof -
  from assms(1) have rc: "received s = int (length (signals s))"
    and ds: "distinct (signals s)"
    and st: "set (signals s) = {i. i < length (pcs s) \<and> signalled (pcs s ! i)}"
    unfolding exit_inv_def by blast+
  have same: "exit_inv g (s\<lparr>pcs := (pcs s)[i := pc]\<rparr>)"
    if "i < length (pcs s)" and "signalled pc = signalled (pcs s ! i)" for pc
  proof -
    have "{j. j < length ((pcs s)[i := pc]) \<and> signalled ((pcs s)[i := pc] ! j)} =
          {j. j < length (pcs s) \<and> signalled (pcs s ! j)}"
      unfolding signalled_update [OF that(1)] using that by auto
    then show ?thesis using rc ds st assms(2) by (simp add: exit_inv_def)
  qed
  from assms(3) show ?thesis
  proof (cases rule: worker_step_cases)
    case (dial_fail e d)
    then show ?thesis using assms(1,2) by (simp add: exit_inv_def)
  next
    case (dial_ok d)
    from same [of WRecv] dial_ok have "exit_inv g (s\<lparr>pcs := (pcs s)[i := WRecv]\<rparr>)"
      by (simp add: signalled_def)
    then show ?thesis using dial_ok(4) assms(2) by (simp add: exit_inv_def)
  next
    case (recv_nil c)
    from same [of WSend] recv_nil have "exit_inv g (s\<lparr>pcs := (pcs s)[i := WSend]\<rparr>)"
      by (simp add: signalled_def)
    then show ?thesis using recv_nil(4) assms(2) by (simp add: exit_inv_def)
  next
    case (recv_op op c)
    from same [of "WExec op"] recv_op have "exit_inv g (s\<lparr>pcs := (pcs s)[i := WExec op]\<rparr>)"
      by (simp add: signalled_def)
    then show ?thesis using recv_op(4) assms(2) by (simp add: exit_inv_def)
  next
    case (exec op err ls d)
    from same [of WCount] exec have "exit_inv g (s\<lparr>pcs := (pcs s)[i := WCount]\<rparr>)"
      by (simp add: signalled_def)
    then show ?thesis using exec(4) assms(2) by (simp add: exit_inv_def)
  next
    case count
    from same [of WRecv] count have "exit_inv g (s\<lparr>pcs := (pcs s)[i := WRecv]\<rparr>)"
      by (simp add: signalled_def)
    then show ?thesis using count(3) assms(2) by (simp add: exit_inv_def)
  next
    case send
    from send(1,2) st have notin: "i \<notin> set (signals s)" by (simp add: signalled_def)
    have "{j. j < length ((pcs s)[i := WFinish]) \<and> signalled ((pcs s)[i := WFinish] ! j)} =
          insert i {j. j < length (pcs s) \<and> signalled (pcs s ! j)}"
      unfolding signalled_update [OF send(1)] by (simp add: signalled_def)
    then show ?thesis using send(3,4) rc ds st notin assms(2) by (simp add: exit_inv_def)
  next
    case finish
    from same [of WDone] finish have "exit_inv g (s\<lparr>pcs := (pcs s)[i := WDone]\<rparr>)"
      by (simp add: signalled_def)
    then show ?thesis using finish(3) assms(2) by (simp add: exit_inv_def)
  qed
qed

lemma exit_inv_step:
  assumes "exit_inv g s" and "step g m t s = Some s'"
  shows "exit_inv g s'"
proof -
  from assms(1) have rc: "received s = int (length (signals s))"
    and ds: "distinct (signals s)"
    and st: "set (signals s) = {i. i < length (pcs s) \<and> signalled (pcs s ! i)}"
    unfolding exit_inv_def by blast+
  from assms(2) show ?thesis
  proof (cases rule: step_cases)
    case main
    from main(4) show ?thesis
    proof (cases rule: main_step_cases)
      case 1
      then show ?thesis using rc ds st by (simp add: exit_inv_def)
    qed
  next
    case reporter
    from reporter(4) show ?thesis
      by (cases rule: reporter_step_cases)
         (use rc ds st reporter(1) in \<open>simp_all add: exit_inv_def\<close>)
  next
    case (worker i)
    from exit_inv_worker [OF assms(1) worker(1,4)] show ?thesis by simp
  qed
qed

lemma report_inv_step:
  assumes "report_inv s" and "step g m t s = Some s'"
  shows "report_inv s'"
  using assms(2)
proof (cases rule: step_cases)
  case main
  from main(4) have "s' = s\<lparr>returned := True\<rparr>" by (rule main_step_cases)
  then show ?thesis using assms(1) by (simp add: report_inv_def)
next
  case reporter
  from assms(1) obtain k where k: "reported s =
      concat (replicate k [Sleep5, Report]) @ (if rpc s = RDone then [FinalReport] else [])"
    unfolding report_inv_def ..
  from reporter(4) show ?thesis
  proof (cases rule: reporter_step_cases)
    case check
    then show ?thesis using k unfolding report_inv_def by (intro exI [of _ k]) simp
  next
    case body
    have "concat (replicate (Suc k) [Sleep5, Report]) =
          concat (replicate k [Sleep5, Report]) @ [Sleep5, Report]"
      by (induction k) simp_all
    then show ?thesis using k body unfolding report_inv_def
      by (intro exI [of _ "Suc k"]) simp
  next
    case final
    then show ?thesis using k unfolding report_inv_def by (intro exI [of _ k]) simp
  qed
next
  case (worker i)
  from worker(4) have "reported s' = reported s \<and> rpc s' = rpc s"
    by (cases rule: worker_step_cases) simp_all
  then show ?thesis using assms(1) by (simp add: report_inv_def)
qed

lemma run_append: "run g m (xs @ ys) s = run g m ys (run g m xs s)"
  by (induction xs arbitrary: s) (simp_all split: option.splits)

lemma run_invariant:
  assumes "\<And>t s s'. P s \<Longrightarrow> step g m t s = Some s' \<Longrightarrow> P s'" and "P s"
  shows "P (run g m sch s)"
  using assms(2)
proof (induction sch arbitrary: s)
  case Nil
  then show ?case by simp
next
  case (Cons t sch)
  show ?case
  proof (cases "step g m t s")
    case None
    then show ?thesis using Cons by simp
  next
    case (Some s')
    with assms(1) Cons.prems have "P s'" by blast
    then show ?thesis using Cons.IH Some by simp
  qed
qed

lemma chan_inv_init: "chan_inv g q (init g q d)"
  by (rule chan_invI [where p = "[]"])
     (simp_all add: init_def in_flight_def mid_op_def past_nil_def ops_of_def nils_of_def)

lemma signalled_not_mid_op: "signalled pc \<Longrightarrow> \<not> mid_op pc"
  by (cases pc) (simp_all add: signalled_def mid_op_def)

lemma not_signalled_WStart: "\<not> signalled WStart"
  by (simp add: signalled_def)

lemma exit_inv_init: "exit_inv g (init g q d)"
  by (simp add: exit_inv_def init_def not_signalled_WStart)

lemma report_inv_init: "report_inv (init g q d)"
  unfolding report_inv_def by (intro exI [of _ 0]) (simp add: init_def)

lemma chan_inv_run: "chan_inv g q (run g m sch (init g q d))"
  by (rule run_invariant [where P = "chan_inv g q"]) (erule (1) chan_inv_step, rule chan_inv_init)

lemma exit_inv_run: "exit_inv g (run g m sch (init g q d))"
  by (rule run_invariant [where P = "exit_inv g"]) (erule (1) exit_inv_step, rule exit_inv_init)

lemma report_inv_run: "report_inv (run g m sch (init g q d))"
  by (rule run_invariant [where P = report_inv]) (erule (1) report_inv_step, rule report_inv_init)

lemma pulled_prefix: "q = p @ opsChan s \<Longrightarrow> pulled q s = p"
  by (simp add: pulled_def)

lemma signals_count:
  assumes "exit_inv g s"
  shows "length (signals s) = length (filter signalled (pcs s))"
proof -
  from assms have "distinct (signals s)"
    and "set (signals s) = {i. i < length (pcs s) \<and> signalled (pcs s ! i)}"
    unfolding exit_inv_def by blast+
  then have "card {i. i < length (pcs s) \<and> signalled (pcs s ! i)} = length (signals s)"
    using distinct_card [of "signals s"] by simp
  then show ?thesis by (simp only: length_filter_conv_card)
qed

lemma filter_all:
  assumes "length (filter P xs) = length xs"
  shows "\<forall>x \<in> set xs. P x"
proof
  fix x
  assume x: "x \<in> set xs"
  show "P x"
  proof (rule ccontr)
    assume "\<not> P x"
    with x have "length (filter P xs) < length xs" by (rule length_filter_less)
    with assms show False by simp
  qed
qed

lemma returned_all_signalled:
  assumes "exit_inv g s" and "length (pcs s) = nat (workers g)" and "returned s"
  shows "\<forall>pc \<in> set (pcs s). signalled pc"
proof -
  from assms(1,3) have "workers g \<le> int (length (signals s))"
    unfolding exit_inv_def by simp
  then have "nat (workers g) \<le> length (filter signalled (pcs s))"
    using signals_count [OF assms(1)] by simp
  moreover have "length (filter signalled (pcs s)) \<le> length (pcs s)"
    by (rule length_filter_le)
  ultimately have "length (filter signalled (pcs s)) = length (pcs s)"
    using assms(2) by simp
  then show ?thesis by (rule filter_all)
qed

lemma returned_none_in_flight:
  assumes "exit_inv g s" and "length (pcs s) = nat (workers g)" and "returned s"
  shows "in_flight s = 0"
proof -
  from returned_all_signalled [OF assms] have "\<forall>pc \<in> set (pcs s). \<not> mid_op pc"
    using signalled_not_mid_op by blast
  then show ?thesis by (simp add: in_flight_def)
qed

text \<open>
  C2: in every state the goroutines reach, under every schedule and whatever the
  driver returns, the counter \<open>opsExecuted\<close> (a 64-bit counter, so up to \<open>2 ^ 64\<close>) is the
  number of ops the workers have received from the channel less the number of workers
  that hold an op and have not yet counted it. Each op received is thus counted once,
  after its execution, whether that ended in nil or in an error, and nothing else
  moves the counter; when \<^verbatim>\<open>main\<close> has returned, no worker holds an op and the counter
  is the number of ops received.
\<close>

theorem every_op_counted_once:
  "q = pulled q (run g m sch (init g q d)) @ opsChan (run g m sch (init g q d))
   \<and> opsExecuted (run g m sch (init g q d)) + of_nat (in_flight (run g m sch (init g q d)))
       = of_nat (length (ops_of (pulled q (run g m sch (init g q d)))))
   \<and> (returned (run g m sch (init g q d)) \<longrightarrow>
        in_flight (run g m sch (init g q d)) = 0
        \<and> opsExecuted (run g m sch (init g q d))
            = of_nat (length (ops_of (pulled q (run g m sch (init g q d))))))"
proof -
  define s where "s = run g m sch (init g q d)"
  have c: "chan_inv g q s" unfolding s_def by (rule chan_inv_run)
  have e: "exit_inv g s" unfolding s_def by (rule exit_inv_run)
  from c obtain p where len: "length (pcs s) = nat (workers g)" and q: "q = p @ opsChan s"
    and cnt: "opsExecuted s + of_nat (in_flight s) = of_nat (length (ops_of p))"
    unfolding chan_inv_def by blast
  have p: "pulled q s = p" using q by (rule pulled_prefix)
  have "returned s \<longrightarrow> in_flight s = 0" using returned_none_in_flight [OF e len] by blast
  then have "q = pulled q s @ opsChan s
     \<and> opsExecuted s + of_nat (in_flight s) = of_nat (length (ops_of (pulled q s)))
     \<and> (returned s \<longrightarrow> in_flight s = 0 \<and> opsExecuted s = of_nat (length (ops_of (pulled q s))))"
    using q cnt p by auto
  then show ?thesis unfolding s_def .
qed

lemma no_panic_step:
  assumes "\<forall>i d. fst (Dial m i d) = None" and "step g m t s = Some s'"
  shows "panicked s' = None"
  using assms(2)
proof (cases rule: step_cases)
  case main
  from main(4) have "s' = s\<lparr>returned := True\<rparr>" by (rule main_step_cases)
  with main(2) show ?thesis by simp
next
  case reporter
  from reporter(4) show ?thesis
    by (cases rule: reporter_step_cases) (use reporter(2) in simp_all)
next
  case (worker i)
  from worker(4) show ?thesis
  proof (cases rule: worker_step_cases)
    case (dial_fail e d)
    from assms(1) have "fst (Dial m i (db s)) = None" by blast
    with dial_fail(3) show ?thesis by simp
  qed (use worker(2) in simp_all)
qed

lemma todo_step:
  assumes "step g m t s = Some s'" and "t \<noteq> TReporter" and "panicked s' = None"
  shows "todo s' < todo s"
  using assms(1)
proof (cases rule: step_cases)
  case main
  from main(4) have "s' = s\<lparr>returned := True\<rparr>" by (rule main_step_cases)
  with main(1) show ?thesis by (simp add: todo_def)
next
  case reporter
  with assms(2) show ?thesis by simp
next
  case (worker i)
  note r = worker(1)
  from worker(4) show ?thesis
  proof (cases rule: worker_step_cases)
    case (dial_fail e d)
    with assms(3) show ?thesis by simp
  next
    case (dial_ok d)
    from sum_list_map_update [OF dial_ok(1), of cost WRecv] dial_ok(2,4) r
    show ?thesis by (simp add: todo_def cost_def)
  next
    case (recv_nil c)
    from sum_list_map_update [OF recv_nil(1), of cost WSend] recv_nil(2,3,4) r
    show ?thesis by (simp add: todo_def cost_def ops_of_def)
  next
    case (recv_op op c)
    from sum_list_map_update [OF recv_op(1), of cost "WExec op"] recv_op(2,3,4) r
    show ?thesis by (simp add: todo_def cost_def ops_of_def)
  next
    case (exec op err ls d)
    from sum_list_map_update [OF exec(1), of cost WCount] exec(2,4) r
    show ?thesis by (simp add: todo_def cost_def)
  next
    case count
    from sum_list_map_update [OF count(1), of cost WRecv] count(2,3) r
    show ?thesis by (simp add: todo_def cost_def)
  next
    case send
    from sum_list_map_update [OF send(1), of cost WFinish] send(2,4) r
    show ?thesis by (simp add: todo_def cost_def)
  next
    case finish
    from sum_list_map_update [OF finish(1), of cost WDone] finish(2,3) r
    show ?thesis by (simp add: todo_def cost_def)
  qed
qed

lemma nils_of_append: "nils_of (xs @ ys) = nils_of xs @ nils_of ys"
  by (simp add: nils_of_def)

lemma not_all_signalled:
  assumes "exit_inv g s" and "length (pcs s) = nat (workers g)" and "received s < workers g"
  shows "\<exists>i < length (pcs s). \<not> signalled (pcs s ! i)"
proof (rule ccontr)
  assume "\<not> ?thesis"
  then have "\<forall>pc \<in> set (pcs s). signalled pc" by (auto simp: in_set_conv_nth)
  then have "filter signalled (pcs s) = pcs s" by (rule filter_True)
  then have "length (signals s) = length (pcs s)" using signals_count [OF assms(1)] by simp
  moreover from assms(1) have "received s = int (length (signals s))"
    unfolding exit_inv_def by blast
  ultimately show False using assms(2,3) by (simp split: if_splits)
qed

lemma worker_enabled:
  assumes c: "chan_inv g q s" and "received s < workers g"
    and n: "nat (workers g) \<le> length (nils_of q)"
    and i: "i < length (pcs s)" and ns: "\<not> signalled (pcs s ! i)"
  shows "worker_step g m i s \<noteq> None"
proof (cases "pcs s ! i")
  case WStart
  then show ?thesis using i
    by (cases "Dial m i (db s)"; cases "fst (Dial m i (db s))") (simp_all add: worker_step_def)
next
  case WRecv
  from c obtain p where len: "length (pcs s) = nat (workers g)" and q: "q = p @ opsChan s"
    and nil: "length (nils_of p) = length (filter past_nil (pcs s))"
    unfolding chan_inv_def by blast
  from i have "pcs s ! i \<in> set (pcs s)" by simp
  moreover have "\<not> past_nil (pcs s ! i)" using WRecv by (simp add: past_nil_def)
  ultimately have "length (filter past_nil (pcs s)) < length (pcs s)"
    by (rule length_filter_less)
  moreover have "length (nils_of q) = length (nils_of p) + length (nils_of (opsChan s))"
    by (subst q) (simp add: nils_of_append)
  ultimately have "0 < length (nils_of (opsChan s))" using n len nil by linarith
  then have "opsChan s \<noteq> []" by (auto simp: nils_of_def)
  then show ?thesis using WRecv i
    by (cases "opsChan s"; cases "hd (opsChan s)") (simp_all add: worker_step_def)
next
  case (WExec op)
  then show ?thesis using i by (simp add: worker_step_def split: prod.splits)
next
  case WCount
  then show ?thesis using i by (simp add: worker_step_def)
next
  case WSend
  then show ?thesis using i assms(2) by (simp add: worker_step_def)
next
  case WFinish
  then show ?thesis using ns by (simp add: signalled_def)
next
  case WDone
  then show ?thesis using ns by (simp add: signalled_def)
qed

lemma never_stuck:
  assumes "chan_inv g q s" and "exit_inv g s" and "\<not> returned s" and "panicked s = None"
    and "nat (workers g) \<le> length (nils_of q)"
  shows "\<exists>t. t \<noteq> TReporter \<and> step g m t s \<noteq> None"
proof (cases "received s < workers g")
  case True
  from assms(1) have len: "length (pcs s) = nat (workers g)" unfolding chan_inv_def by blast
  from not_all_signalled [OF assms(2) len True]
  obtain i where i: "i < length (pcs s)" and ns: "\<not> signalled (pcs s ! i)" by blast
  from worker_enabled [OF assms(1) True assms(5) i ns]
  have "step g m (TWorker i) s \<noteq> None" using assms(3,4) by (simp add: step_def)
  then show ?thesis by blast
next
  case False
  then have "step g m TMain s \<noteq> None" using assms(3,4) by (simp add: step_def main_step_def)
  then show ?thesis by blast
qed

lemma can_return:
  assumes "\<forall>i d. fst (Dial m i d) = None" and "nat (workers g) \<le> length (nils_of q)"
  shows "chan_inv g q s \<Longrightarrow> exit_inv g s \<Longrightarrow> panicked s = None \<Longrightarrow>
           \<exists>sch. length sch \<le> todo s \<and> returned (run g m sch s)"
proof (induction "todo s" arbitrary: s rule: less_induct)
  case less
  show ?case
  proof (cases "returned s")
    case True
    then have "length [] \<le> todo s \<and> returned (run g m [] s)" by simp
    then show ?thesis by blast
  next
    case False
    from never_stuck [OF less.prems(1,2) False less.prems(3) assms(2)]
    obtain t s' where t: "t \<noteq> TReporter" and st: "step g m t s = Some s'" by blast
    have p: "panicked s' = None" using assms(1) st by (rule no_panic_step)
    have lt: "todo s' < todo s" using st t p by (rule todo_step)
    have "chan_inv g q s'" using less.prems(1) st by (rule chan_inv_step)
    moreover have "exit_inv g s'" using less.prems(2) st by (rule exit_inv_step)
    ultimately obtain sch where sch: "length sch \<le> todo s'" "returned (run g m sch s')"
      using less.hyps [OF lt] p by blast
    have "length (t # sch) \<le> todo s \<and> returned (run g m (t # sch) s)"
      using sch lt st by simp
    then show ?thesis by blast
  qed
qed

lemma no_panic_run:
  assumes "\<forall>i d. fst (Dial m i d) = None"
  shows "panicked (run g m sch (init g q d)) = None"
proof (rule run_invariant [where P = "\<lambda>s. panicked s = None"])
  show "panicked s' = None" if "step g m t s = Some s'" for t s s'
    using assms that by (rule no_panic_step)
  show "panicked (init g q d) = None" by (simp add: init_def)
qed

lemmas run_eval = step_def worker_step_def main_step_def reporter_step_def init_def
  example_globals_def example_mongo_def example_block_def execute_op_def
  RetryOnSocketFailure_def retry_lines_def example_init_def example_run_def eval_nat_numeral

lemma example_run_busy:
  "example_run busy_schedule =
     \<lparr>opsChan = [], opsExecuted = 2, pcs = [WFinish, WDone], received = 2,
      returned = False, panicked = None, rpc = RCheck, reported = [Sleep5, Report],
      errlog = [RetryNotice (OtherError ''EOF''), OpError ErrNotFound],
      signals = [0, 1], db = 3\<rparr>"
  by (simp add: run_eval busy_schedule_def)

lemma example_run_all:
  "example_run example_schedule =
     \<lparr>opsChan = [], opsExecuted = 2, pcs = [WFinish, WDone], received = 2,
      returned = True, panicked = None, rpc = RCheck, reported = [Sleep5, Report],
      errlog = [RetryNotice (OtherError ''EOF''), OpError ErrNotFound],
      signals = [0, 1], db = 3\<rparr>"
proof -
  have "example_run example_schedule =
      run (example_globals ''stress'' 2 2 True)
       (example_mongo [Some (OtherError ''EOF''), None, Some ErrNotFound])
       [TMain, TReporter, TWorker 0] (example_run busy_schedule)"
    by (simp add: example_run_def example_schedule_def run_append)
  then show ?thesis unfolding example_run_busy
    by (simp add: step_def main_step_def example_globals_def)
qed

theorem every_op_counted_once_witness:
  "returned (example_run example_schedule)
   \<and> pulled [Some 5, Some 6, None, None] (example_run example_schedule)
        = [Some 5, Some 6, None, None]
   \<and> in_flight (example_run example_schedule) = 0
   \<and> opsExecuted (example_run example_schedule) = 2"
  using every_op_counted_once [of "[Some 5, Some 6, None, None]"
      "example_globals ''stress'' 2 2 True"
      "example_mongo [Some (OtherError ''EOF''), None, Some ErrNotFound]" example_schedule 0]
  unfolding example_run_def [symmetric] example_init_def [symmetric]
  by (simp add: example_run_all pulled_def ops_of_def)

text \<open>
  C3: with \<open>workers > 0\<close>, in every state the goroutines reach, under every schedule:
  \<^verbatim>\<open>main\<close> has received as many signals as workers have got past their send on
  \<^verbatim>\<open>exit\<close>, each of these workers once and no other; as many nils were received from
  the channel as there are workers at or past the send; \<open>received\<close> never exceeds
  \<open>workers\<close>; and when \<^verbatim>\<open>main\<close> has returned, \<open>received\<close> is \<open>workers\<close> and every
  worker has signalled once. When \<^verbatim>\<open>mgo.Dial\<close> never fails and the dispatcher sends at
  least \<open>workers\<close> nils, then as long as \<^verbatim>\<open>main\<close> has not returned a worker or \<^verbatim>\<open>main\<close>
  can move, and at most \<open>todo\<close> moves of workers and \<^verbatim>\<open>main\<close> lead to the return of
  \<^verbatim>\<open>main\<close>.
\<close>

theorem exit_signals:
  assumes "0 < workers g" and "s = run g m sch (init g q d)"
  shows "received s = int (length (signals s)) \<and> received s \<le> workers g
     \<and> distinct (signals s)
     \<and> (\<forall>i. i \<in> set (signals s) \<longleftrightarrow> i < nat (workers g) \<and> signalled (pcs s ! i))
     \<and> length (nils_of (pulled q s)) = length (filter past_nil (pcs s))
     \<and> (returned s \<longrightarrow> received s = workers g \<and> set (signals s) = {..<nat (workers g)})
     \<and> ((\<forall>i d. fst (Dial m i d) = None) \<and> nat (workers g) \<le> length (nils_of q) \<longrightarrow>
          (\<not> returned s \<longrightarrow> (\<exists>t. t \<noteq> TReporter \<and> step g m t s \<noteq> None))
          \<and> (\<exists>sch'. length sch' \<le> todo s \<and> returned (run g m (sch @ sch') (init g q d))))"
proof -
  have c: "chan_inv g q s" unfolding assms(2) by (rule chan_inv_run)
  have e: "exit_inv g s" unfolding assms(2) by (rule exit_inv_run)
  from c obtain p where len: "length (pcs s) = nat (workers g)" and q: "q = p @ opsChan s"
    and nil: "length (nils_of p) = length (filter past_nil (pcs s))"
    unfolding chan_inv_def by blast
  from e have rc: "received s = int (length (signals s))" and ds: "distinct (signals s)"
    and st: "set (signals s) = {i. i < length (pcs s) \<and> signalled (pcs s ! i)}"
    and rt: "returned s \<longrightarrow> workers g \<le> received s"
    unfolding exit_inv_def by blast+
  have "length (filter signalled (pcs s)) \<le> length (pcs s)" by (rule length_filter_le)
  then have le: "received s \<le> workers g"
    using rc signals_count [OF e] len assms(1) by simp
  have mem: "\<forall>i. i \<in> set (signals s) \<longleftrightarrow> i < nat (workers g) \<and> signalled (pcs s ! i)"
    using st len by simp
  have nl: "length (nils_of (pulled q s)) = length (filter past_nil (pcs s))"
    using nil pulled_prefix [OF q] by simp
  have ret: "returned s \<longrightarrow> received s = workers g \<and> set (signals s) = {..<nat (workers g)}"
  proof
    assume r: "returned s"
    from returned_all_signalled [OF e len r] have "\<forall>i < length (pcs s). signalled (pcs s ! i)"
      by simp
    then have "set (signals s) = {..<nat (workers g)}" using st len by auto
    moreover have "received s = workers g" using rt r le by simp
    ultimately show "received s = workers g \<and> set (signals s) = {..<nat (workers g)}" by simp
  qed
  have live: "(\<not> returned s \<longrightarrow> (\<exists>t. t \<noteq> TReporter \<and> step g m t s \<noteq> None))
          \<and> (\<exists>sch'. length sch' \<le> todo s \<and> returned (run g m (sch @ sch') (init g q d)))"
    if dial: "\<forall>i d. fst (Dial m i d) = None" and n: "nat (workers g) \<le> length (nils_of q)"
  proof -
    have p: "panicked s = None" unfolding assms(2) using dial by (rule no_panic_run)
    have "\<not> returned s \<longrightarrow> (\<exists>t. t \<noteq> TReporter \<and> step g m t s \<noteq> None)"
      using never_stuck [OF c e _ p n] by blast
    moreover from can_return [OF dial n c e p]
    obtain sch' where "length sch' \<le> todo s" and "returned (run g m sch' s)" by blast
    then have "\<exists>sch'. length sch' \<le> todo s \<and> returned (run g m (sch @ sch') (init g q d))"
      unfolding run_append assms(2) by blast
    ultimately show ?thesis by blast
  qed
  show ?thesis using rc le ds mem nl ret live by blast
qed

theorem exit_signals_witness:
  "received (example_run example_schedule) = 2
   \<and> signals (example_run example_schedule) = [0, 1]
   \<and> returned (example_run example_schedule)
   \<and> set (signals (example_run example_schedule)) = {..<2}
   \<and> \<not> returned example_init
   \<and> (\<exists>t. t \<noteq> TReporter
         \<and> step (example_globals ''stress'' 2 2 True)
             (example_mongo [Some (OtherError ''EOF''), None, Some ErrNotFound]) t example_init
           \<noteq> None)
   \<and> (\<exists>sch'. length sch' \<le> todo example_init \<and> returned (example_run sch'))"
proof -
  have w: "0 < workers (example_globals ''stress'' 2 2 True)"
    by (simp add: example_globals_def)
  have a: "example_run example_schedule =
      run (example_globals ''stress'' 2 2 True)
        (example_mongo [Some (OtherError ''EOF''), None, Some ErrNotFound]) example_schedule
        (init (example_globals ''stress'' 2 2 True) [Some 5, Some 6, None, None] 0)"
    by (simp add: example_run_def example_init_def)
  have b: "example_init =
      run (example_globals ''stress'' 2 2 True)
        (example_mongo [Some (OtherError ''EOF''), None, Some ErrNotFound]) []
        (init (example_globals ''stress'' 2 2 True) [Some 5, Some 6, None, None] 0)"
    by (simp add: example_init_def)
  have d: "\<forall>i d. fst (Dial (example_mongo [Some (OtherError ''EOF''), None, Some ErrNotFound]) i d)
      = None"
    by (simp add: example_mongo_def)
  have n: "nat (workers (example_globals ''stress'' 2 2 True))
      \<le> length (nils_of [Some (5::nat), Some 6, None, None])"
    by (simp add: example_globals_def nils_of_def)
  have r: "\<not> returned example_init" by (simp add: example_init_def init_def)
  from exit_signals [OF w a] have
    "received (example_run example_schedule) = 2
     \<and> signals (example_run example_schedule) = [0, 1]
     \<and> returned (example_run example_schedule)
     \<and> set (signals (example_run example_schedule)) = {..<2}"
    by (simp add: example_run_all example_globals_def)
  moreover from exit_signals [OF w b] d n r have
    "(\<exists>t. t \<noteq> TReporter
         \<and> step (example_globals ''stress'' 2 2 True)
             (example_mongo [Some (OtherError ''EOF''), None, Some ErrNotFound]) t example_init
           \<noteq> None)
     \<and> (\<exists>sch'. length sch' \<le> todo example_init \<and> returned (example_run sch'))"
    unfolding example_run_def example_init_def [symmetric] by simp
  ultimately show ?thesis using r by blast
qed

text \<open>
  C6, as amended: in every state the goroutines reach, the output of the reporter is a
  number of rounds, each a sleep of 5 seconds followed by a report, and after them the
  deferred final report exactly when the reporter has returned. While the process
  lives, a reporter that stands at the test of its loop sleeps and reports once more
  when it reads a counter below \<open>maxOps\<close>, and otherwise emits the final report and
  returns. Once \<^verbatim>\<open>main\<close> has returned or a goroutine has panicked nothing more
  happens, so nothing more is reported.
\<close>

theorem reporter_output:
  assumes "s = run g m sch (init g q d)"
  shows "(\<exists>k. reported s =
            concat (replicate k [Sleep5, Report])
            @ (if rpc s = RDone then [FinalReport] else []))
     \<and> (\<not> returned s \<and> panicked s = None \<and> rpc s = RCheck \<longrightarrow>
          reported (run g m [TReporter, TReporter] s) =
            reported s @ (if sint (opsExecuted s) < maxOps g then [Sleep5, Report]
                          else [FinalReport])
          \<and> rpc (run g m [TReporter, TReporter] s) =
              (if sint (opsExecuted s) < maxOps g then RCheck else RDone))
     \<and> (returned s \<or> panicked s \<noteq> None \<longrightarrow> run g m sch' s = s)"
proof -
  have "report_inv s" unfolding assms by (rule report_inv_run)
  then have a: "\<exists>k. reported s =
            concat (replicate k [Sleep5, Report])
            @ (if rpc s = RDone then [FinalReport] else [])"
    unfolding report_inv_def .
  have b: "reported (run g m [TReporter, TReporter] s) =
            reported s @ (if sint (opsExecuted s) < maxOps g then [Sleep5, Report]
                          else [FinalReport])
          \<and> rpc (run g m [TReporter, TReporter] s) =
              (if sint (opsExecuted s) < maxOps g then RCheck else RDone)"
    if "\<not> returned s" and "panicked s = None" and "rpc s = RCheck"
    using that by (simp add: step_def reporter_step_def)
  have c: "run g m sch' s = s" if "returned s \<or> panicked s \<noteq> None"
    using that by (induction sch') (simp_all add: step_def)
  show ?thesis using a b c by blast
qed

theorem reporter_output_witness:
  "reported (example_run busy_schedule) = concat (replicate 1 [Sleep5, Report])
   \<and> reported (example_run (busy_schedule @ [TReporter, TReporter])) = [Sleep5, Report, FinalReport]
   \<and> reported (example_run [TReporter, TReporter]) = [Sleep5, Report]
   \<and> example_run (example_schedule @ [TReporter, TReporter]) = example_run example_schedule"
proof -
  have a: "example_run sch =
      run (example_globals ''stress'' 2 2 True)
        (example_mongo [Some (OtherError ''EOF''), None, Some ErrNotFound]) sch
        (init (example_globals ''stress'' 2 2 True) [Some 5, Some 6, None, None] 0)" for sch
    by (simp add: example_run_def example_init_def)
  have m: "maxOps (example_globals ''stress'' 2 2 True) = 2" by (simp add: example_globals_def)
  have i: "example_run [] = example_init" by (simp add: example_run_def)
  have two: "reported (example_run (sch @ [TReporter, TReporter])) =
      reported (example_run sch)
      @ (if sint (opsExecuted (example_run sch)) < 2 then [Sleep5, Report] else [FinalReport])"
    if "\<not> returned (example_run sch)" and "panicked (example_run sch) = None"
      and "rpc (example_run sch) = RCheck" for sch
    using reporter_output [OF a [of sch], of "[]"] that
    unfolding a [of "sch @ [TReporter, TReporter]"] run_append a [symmetric]
    by (simp add: m)
  from two [of busy_schedule]
  have "reported (example_run (busy_schedule @ [TReporter, TReporter])) =
      [Sleep5, Report, FinalReport]"
    by (simp add: example_run_busy)
  moreover from two [of "[]"]
  have "reported (example_run [TReporter, TReporter]) = [Sleep5, Report]"
    by (simp add: i example_init_def init_def)
  moreover from reporter_output [OF a [of example_schedule], of "[TReporter, TReporter]"]
  have "example_run (example_schedule @ [TReporter, TReporter]) = example_run example_schedule"
    unfolding a [of "example_schedule @ [TReporter, TReporter]"] run_append a [symmetric]
    by (simp add: example_run_all)
  ultimately show ?thesis by (simp add: example_run_busy)
qed

text \<open>
  The claim as stated fails: with two workers and \<open>maxOps = 2\<close>, under this schedule
  the counter reaches 2 and \<^verbatim>\<open>main\<close> returns while the reporter stands at the test of
  its loop; the process ends with one report of the loop and no final report, and the
  reporter, chosen again, does nothing.
\<close>

theorem final_report_counterexample:
  "maxOps (example_globals ''stress'' 2 2 True) = 2
   \<and> example_run (example_schedule @ [TReporter, TReporter]) =
     \<lparr>opsChan = [], opsExecuted = 2, pcs = [WFinish, WDone], received = 2,
      returned = True, panicked = None, rpc = RCheck, reported = [Sleep5, Report],
      errlog = [RetryNotice (OtherError ''EOF''), OpError ErrNotFound],
      signals = [0, 1], db = 3\<rparr>"
proof -
  have "example_run (example_schedule @ [TReporter, TReporter]) =
      run (example_globals ''stress'' 2 2 True)
       (example_mongo [Some (OtherError ''EOF''), None, Some ErrNotFound])
       [TReporter, TReporter] (example_run example_schedule)"
    by (simp add: example_run_def run_append)
  then show ?thesis unfolding example_run_all
    by (simp add: step_def example_globals_def)
qed

subsection \<open>The run as a whole\<close>

lemma main_setup_stress_ok:
  assumes "style g = ''stress''" and "0 < workers g" and "reader_ok c g"
  shows "main_setup c g =
     ([GOMAXPROCS 100, CallNewLogger (stdout g) (stderr g),
       MakeReader (FileByLineOpsReader (opsFilename g))]
      @ (if 0 < startTime g
         then [CallSetStartTime (FileByLineOpsReader (opsFilename g)) (startTime g)] else [])
      @ (if 0 < numSkipOps g
         then [CallSkipOps (FileByLineOpsReader (opsFilename g)) (numSkipOps g)] else [])
      @ [MakeDispatcher (BestEffortOpsDispatcher (FileByLineOpsReader (opsFilename g))
           (if maxOps g = 0 then 4294967295 else maxOps g))],
      Inr (g\<lparr>maxOps := (if maxOps g = 0 then 4294967295 else maxOps g),
              logger := fst (NewLogger c (stdout g) (stderr g))\<rparr>,
           BestEffortOpsDispatcher (FileByLineOpsReader (opsFilename g))
             (if maxOps g = 0 then 4294967295 else maxOps g)))"
  unfolding main_setup_stress [OF assms(1,2)] using assms(1,3)
  by (simp add: reader_ok_def)

lemma main_setup_real_ok:
  assumes "style g = ''real''" and "0 < workers g" and "reader_ok c g"
  shows "main_setup c g =
     ([GOMAXPROCS 100, CallNewLogger (stdout g) (stderr g),
       MakeReader (CyclicOpsReader (opsFilename g))]
      @ (if 0 < startTime g
         then [CallSetStartTime (CyclicOpsReader (opsFilename g)) (startTime g)] else [])
      @ (if 0 < numSkipOps g
         then [CallSkipOps (CyclicOpsReader (opsFilename g)) (numSkipOps g)] else [])
      @ [MakeDispatcher (ByTimeOpsDispatcher (CyclicOpsReader (opsFilename g))
           (if maxOps g = 0 then 4294967295 else maxOps g))],
      Inr (g\<lparr>maxOps := (if maxOps g = 0 then 4294967295 else maxOps g),
              logger := fst (NewLogger c (stdout g) (stderr g))\<rparr>,
           ByTimeOpsDispatcher (CyclicOpsReader (opsFilename g))
             (if maxOps g = 0 then 4294967295 else maxOps g)))"
  unfolding main_setup_real [OF assms(1,2)] using assms(1,3)
  by (simp add: reader_ok_def)

lemma positioned_startup:
  "positioned stamp
     ([GOMAXPROCS k, CallNewLogger a b, MakeReader r]
      @ (if 0 < t then [CallSetStartTime r t] else [])
      @ (if 0 < n then [CallSkipOps r n] else [])
      @ [MakeDispatcher disp]) ops =
   (if 0 < n then drop (nat n) else (\<lambda>x. x)) ((if 0 < t then seek stamp t else (\<lambda>x. x)) ops)"
  by (simp add: positioned_def)

lemma positioned_start_of:
  "positioned stamp
     ([GOMAXPROCS k, CallNewLogger a b, MakeReader r]
      @ (if 0 < startTime g then [CallSetStartTime r (startTime g)] else [])
      @ (if 0 < numSkipOps g then [CallSkipOps r (numSkipOps g)] else [])
      @ [MakeDispatcher disp]) ops = start_of stamp g ops"
  unfolding positioned_startup by (simp add: start_of_def Let_def)

lemma main_stress_replay:
  assumes "style g = ''stress''" and "0 < workers g" and "reader_ok c g"
    and "opsSent c = dispatched stamp files (nat (workers g))"
    and "g' = g\<lparr>maxOps := (if maxOps g = 0 then 4294967295 else maxOps g),
                 logger := fst (NewLogger c (stdout g) (stderr g))\<rparr>"
  shows "main c m g d sch =
     ([GOMAXPROCS 100, CallNewLogger (stdout g) (stderr g),
       MakeReader (FileByLineOpsReader (opsFilename g))]
      @ (if 0 < startTime g
         then [CallSetStartTime (FileByLineOpsReader (opsFilename g)) (startTime g)] else [])
      @ (if 0 < numSkipOps g
         then [CallSkipOps (FileByLineOpsReader (opsFilename g)) (numSkipOps g)] else [])
      @ [MakeDispatcher (BestEffortOpsDispatcher (FileByLineOpsReader (opsFilename g))
           (maxOps g'))],
      Inr (run g' m sch
             (init g'
                (map Some (take (nat (maxOps g')) (start_of stamp g (files (opsFilename g))))
                 @ replicate (nat (workers g)) None) d)))"
proof -
  have "dispatched stamp files (nat (workers g))
          ([GOMAXPROCS 100, CallNewLogger (stdout g) (stderr g),
            MakeReader (FileByLineOpsReader (opsFilename g))]
           @ (if 0 < startTime g
              then [CallSetStartTime (FileByLineOpsReader (opsFilename g)) (startTime g)] else [])
           @ (if 0 < numSkipOps g
              then [CallSkipOps (FileByLineOpsReader (opsFilename g)) (numSkipOps g)] else [])
           @ [MakeDispatcher (BestEffortOpsDispatcher (FileByLineOpsReader (opsFilename g))
                (maxOps g'))])
          (BestEffortOpsDispatcher (FileByLineOpsReader (opsFilename g)) (maxOps g')) =
        map Some (take (nat (maxOps g')) (start_of stamp g (files (opsFilename g))))
        @ replicate (nat (workers g)) None"
    unfolding dispatched_def delivered_def positioned_start_of by simp
  then show ?thesis
    unfolding main_def main_setup_stress_ok [OF assms(1,2,3)] assms(4)
    by (simp add: assms(5))
qed

lemma main_real_replay:
  assumes "style g = ''real''" and "0 < workers g" and "reader_ok c g"
    and "opsSent c = dispatched stamp files (nat (workers g))"
    and "g' = g\<lparr>maxOps := (if maxOps g = 0 then 4294967295 else maxOps g),
                 logger := fst (NewLogger c (stdout g) (stderr g))\<rparr>"
  shows "main c m g d sch =
     ([GOMAXPROCS 100, CallNewLogger (stdout g) (stderr g),
       MakeReader (CyclicOpsReader (opsFilename g))]
      @ (if 0 < startTime g
         then [CallSetStartTime (CyclicOpsReader (opsFilename g)) (startTime g)] else [])
      @ (if 0 < numSkipOps g
         then [CallSkipOps (CyclicOpsReader (opsFilename g)) (numSkipOps g)] else [])
      @ [MakeDispatcher (ByTimeOpsDispatcher (CyclicOpsReader (opsFilename g)) (maxOps g'))],
      Inr (run g' m sch
             (init g'
                (map Some
                   (if files (opsFilename g) = [] then []
                    else take (nat (maxOps g'))
                           (start_of stamp g (files (opsFilename g))
                            @ concat (replicate (nat (maxOps g')) (files (opsFilename g)))))
                 @ replicate (nat (workers g)) None) d)))"
proof -
  have "dispatched stamp files (nat (workers g))
          ([GOMAXPROCS 100, CallNewLogger (stdout g) (stderr g),
            MakeReader (CyclicOpsReader (opsFilename g))]
           @ (if 0 < startTime g
              then [CallSetStartTime (CyclicOpsReader (opsFilename g)) (startTime g)] else [])
           @ (if 0 < numSkipOps g
              then [CallSkipOps (CyclicOpsReader (opsFilename g)) (numSkipOps g)] else [])
           @ [MakeDispatcher (ByTimeOpsDispatcher (CyclicOpsReader (opsFilename g))
                (maxOps g'))])
          (ByTimeOpsDispatcher (CyclicOpsReader (opsFilename g)) (maxOps g')) =
        map Some
          (if files (opsFilename g) = [] then []
           else take (nat (maxOps g'))
                  (start_of stamp g (files (opsFilename g))
                   @ concat (replicate (nat (maxOps g')) (files (opsFilename g)))))
        @ replicate (nat (workers g)) None"
    unfolding dispatched_def delivered_def positioned_start_of by simp
  then show ?thesis
    unfolding main_def main_setup_real_ok [OF assms(1,2,3)] assms(4)
    by (simp add: assms(5))
qed

lemma nils_of_sent: "nils_of (map Some xs @ replicate w None) = replicate w None"
proof -
  have "filter (\<lambda>x. x = None) (map Some xs) = []" by (induction xs) simp_all
  moreover have "filter (\<lambda>x. x = None) (replicate w (None :: 'a option)) = replicate w None"
    by (induction w) simp_all
  ultimately show ?thesis by (simp add: nils_of_def)
qed

lemma run_can_return:
  assumes "\<forall>i x. fst (Dial m i x) = None" and "nat (workers g) \<le> length (nils_of q)"
  shows "\<exists>sch'. returned (run g m (sch @ sch') (init g q d))"
proof -
  have "chan_inv g q (run g m sch (init g q d))" by (rule chan_inv_run)
  moreover have "exit_inv g (run g m sch (init g q d))" by (rule exit_inv_run)
  moreover have "panicked (run g m sch (init g q d)) = None" using assms(1) by (rule no_panic_run)
  ultimately obtain sch' where "returned (run g m sch' (run g m sch (init g q d)))"
    using can_return [OF assms] by blast
  then show ?thesis unfolding run_append by blast
qed

lemma cyclic_length:
  assumes "ops \<noteq> []"
  shows "length (take n (rest @ concat (replicate n ops))) = n"
proof -
  from assms have "1 \<le> length ops" by (cases ops) simp_all
  then have "n * 1 \<le> n * length ops" by (rule mult_le_mono2)
  then have "n \<le> length rest + n * length ops" by linarith
  moreover have "length (rest @ concat (replicate n ops)) = length rest + n * length ops"
    by (simp add: length_concat sum_list_replicate)
  ultimately have "n \<le> length (rest @ concat (replicate n ops))" by simp
  then show ?thesis by (simp only: length_take min_absorb2)
qed

lemma cyclic_nth:
  assumes "ops \<noteq> []" and "k < n"
  shows "take n (rest @ concat (replicate n ops)) ! k =
           (if k < length rest then rest ! k else ops ! ((k - length rest) mod length ops))"
proof (cases "k < length rest")
  case True
  then show ?thesis using assms(2) by (simp add: nth_append)
next
  case False
  from assms(1) have "1 \<le> length ops" by (cases ops) simp_all
  then have "n * 1 \<le> n * length ops" by (rule mult_le_mono2)
  then have "n \<le> n * length ops" by simp
  with assms(2) have "k - length rest < n * length ops" by linarith
  from concat_replicate_nth [OF assms(1) this] False assms(2) show ?thesis
    by (simp add: nth_append)
qed

text \<open>
  C8: when the start-up succeeds, the style "stress" builds the best-effort dispatcher
  over the file reader, and the style "real" the by-time dispatcher over the cyclic
  reader that wraps the file reader; the goroutines then run on the channel of that
  dispatcher. With the readers and dispatchers of the specification, in the style
  "stress" the channel carries the ops of the recording from the position set by the
  start-up, at most \<open>maxOps\<close> of them, and then one nil for each worker, so that the
  end of the recording ends the run: when \<^verbatim>\<open>mgo.Dial\<close> never fails, every run can be
  continued to the return of \<^verbatim>\<open>main\<close>. In the style "real", over a recording that is
  not empty, the channel carries exactly \<open>maxOps\<close> ops: the rest of the recording from
  that position, and after its last op the recording from its first op, again and
  again.
\<close>

theorem style_selects_pipeline:
  assumes "style g = ''stress'' \<or> style g = ''real''" and "0 < workers g" and "reader_ok c g"
    and "opsSent c = dispatched stamp files (nat (workers g))"
    and "g' = g\<lparr>maxOps := (if maxOps g = 0 then 4294967295 else maxOps g),
                 logger := fst (NewLogger c (stdout g) (stderr g))\<rparr>"
    and "rest = start_of stamp g (files (opsFilename g))"
    and "cycle = take (nat (maxOps g'))
                   (rest @ concat (replicate (nat (maxOps g')) (files (opsFilename g))))"
  shows "(style g = ''stress'' \<longrightarrow>
            last (fst (main c m g d sch)) =
              MakeDispatcher (BestEffortOpsDispatcher (FileByLineOpsReader (opsFilename g))
                (maxOps g'))
          \<and> snd (main c m g d sch) =
              Inr (run g' m sch
                     (init g' (map Some (take (nat (maxOps g')) rest)
                               @ replicate (nat (workers g)) None) d))
          \<and> ((\<forall>i x. fst (Dial m i x) = None) \<longrightarrow>
                (\<exists>sch' s. snd (main c m g d (sch @ sch')) = Inr s \<and> returned s)))
       \<and> (style g = ''real'' \<longrightarrow>
            last (fst (main c m g d sch)) =
              MakeDispatcher (ByTimeOpsDispatcher (CyclicOpsReader (opsFilename g)) (maxOps g'))
          \<and> (files (opsFilename g) \<noteq> [] \<longrightarrow>
                snd (main c m g d sch) =
                  Inr (run g' m sch
                         (init g' (map Some cycle @ replicate (nat (workers g)) None) d))
                \<and> length cycle = nat (maxOps g')
                \<and> (\<forall>k < nat (maxOps g').
                      cycle ! k =
                        (if k < length rest then rest ! k
                         else files (opsFilename g)
                                ! ((k - length rest) mod length (files (opsFilename g)))))))"
proof (intro conjI impI)
  assume st: "style g = ''stress''"
  note m = main_stress_replay [OF st assms(2,3,4,5), of m d, folded assms(6)]
  show "last (fst (main c m g d sch)) =
      MakeDispatcher (BestEffortOpsDispatcher (FileByLineOpsReader (opsFilename g)) (maxOps g'))"
    unfolding m by simp
  show "snd (main c m g d sch) =
      Inr (run g' m sch
             (init g' (map Some (take (nat (maxOps g')) rest)
                       @ replicate (nat (workers g)) None) d))"
    unfolding m by simp
  assume dial: "\<forall>i x. fst (Dial m i x) = None"
  have "nat (workers g') \<le> length (nils_of (map Some (take (nat (maxOps g')) rest)
                       @ replicate (nat (workers g)) None))"
    unfolding nils_of_sent by (simp add: assms(5))
  from run_can_return [OF dial this]
  obtain sch' where "returned (run g' m (sch @ sch')
      (init g' (map Some (take (nat (maxOps g')) rest) @ replicate (nat (workers g)) None) d))"
    by blast
  then show "\<exists>sch' s. snd (main c m g d (sch @ sch')) = Inr s \<and> returned s"
    unfolding m by auto
next
  assume st: "style g = ''real''"
  note m = main_real_replay [OF st assms(2,3,4,5), of m d, folded assms(6)]
  show "last (fst (main c m g d sch)) =
      MakeDispatcher (ByTimeOpsDispatcher (CyclicOpsReader (opsFilename g)) (maxOps g'))"
    unfolding m by simp
  assume ne: "files (opsFilename g) \<noteq> []"
  show "snd (main c m g d sch) =
      Inr (run g' m sch (init g' (map Some cycle @ replicate (nat (workers g)) None) d))"
    unfolding m using ne by (simp add: assms(7))
  show "length cycle = nat (maxOps g')"
    unfolding assms(7) using ne by (rule cyclic_length)
  show "\<forall>k < nat (maxOps g').
          cycle ! k =
            (if k < length rest then rest ! k
             else files (opsFilename g)
                    ! ((k - length rest) mod length (files (opsFilename g))))"
    unfolding assms(7) using cyclic_nth [OF ne] by blast
qed


lemma reader_ok_replay: "reader_ok (replay_collab lgerr recording) g"
  by (simp add: reader_ok_def replay_collab_def example_collab_def)

theorem style_selects_pipeline_witness:
  "main (replay_collab None [10, 20, 30]) (example_mongo []) (replay_globals ''stress'' 5 15 1)
      0 short_schedule =
     ([GOMAXPROCS 100, CallNewLogger [] [], MakeReader (FileByLineOpsReader ''ops.json''),
       CallSetStartTime (FileByLineOpsReader ''ops.json'') 15,
       CallSkipOps (FileByLineOpsReader ''ops.json'') 1,
       MakeDispatcher (BestEffortOpsDispatcher (FileByLineOpsReader ''ops.json'') 5)],
      Inr \<lparr>opsChan = [], opsExecuted = 1, pcs = [WFinish, WFinish], received = 2,
            returned = True, panicked = None, rpc = RCheck, reported = [], errlog = [],
            signals = [0, 1], db = 1\<rparr>)
   \<and> snd (main (replay_collab None [10, 20, 30]) (example_mongo [])
            (replay_globals ''real'' 5 15 1) 0 []) =
       Inr (init ((replay_globals ''real'' 5 15 1)\<lparr>logger := Some ()\<rparr>)
              [Some 30, Some 10, Some 20, Some 30, Some 10, None, None] 0)"
proof -
  have ws: "0 < workers (replay_globals st 5 15 1)" for st
    by (simp add: replay_globals_def example_globals_def)
  have sent: "opsSent (replay_collab None [10, 20, 30]) =
      dispatched int (\<lambda>f. [10, 20, 30]) (nat (workers (replay_globals st 5 15 1)))" for st
    by (simp add: replay_collab_def replay_globals_def example_globals_def)
  have g': "(replay_globals st 5 15 1)\<lparr>logger := Some ()\<rparr> =
      (replay_globals st 5 15 1)
        \<lparr>maxOps := (if maxOps (replay_globals st 5 15 1) = 0 then 4294967295
                    else maxOps (replay_globals st 5 15 1)),
         logger := fst (NewLogger (replay_collab None [10, 20, 30])
                          (stdout (replay_globals st 5 15 1)) (stderr (replay_globals st 5 15 1)))\<rparr>"
    for st
    by (simp add: replay_globals_def example_globals_def replay_collab_def example_collab_def)
  have rest: "[30] = start_of int (replay_globals st 5 15 1)
                       ((\<lambda>f. [10, 20, 30]) (opsFilename (replay_globals st 5 15 1)))" for st
    by (simp add: start_of_def seek_def replay_globals_def example_globals_def)
  have cyc: "[30, 10, 20, 30, 10] =
      take (nat (maxOps ((replay_globals st 5 15 1)\<lparr>logger := Some ()\<rparr>)))
        ([30] @ concat (replicate (nat (maxOps ((replay_globals st 5 15 1)\<lparr>logger := Some ()\<rparr>)))
                          ((\<lambda>f. [10, 20, 30]) (opsFilename (replay_globals st 5 15 1)))))" for st
    by (simp add: replay_globals_def example_globals_def eval_nat_numeral)
  have st: "style (replay_globals ''stress'' 5 15 1) = ''stress''"
    by (simp add: replay_globals_def example_globals_def)
  have st1: "style (replay_globals ''stress'' 5 15 1) = ''stress''
             \<or> style (replay_globals ''stress'' 5 15 1) = ''real''"
    by (simp add: replay_globals_def example_globals_def)
  have st2: "style (replay_globals ''real'' 5 15 1) = ''stress''
             \<or> style (replay_globals ''real'' 5 15 1) = ''real''"
    by (simp add: replay_globals_def example_globals_def)
  have evs: "fst (main (replay_collab None [10, 20, 30]) (example_mongo [])
                    (replay_globals ''stress'' 5 15 1) 0 short_schedule) =
     [GOMAXPROCS 100, CallNewLogger [] [], MakeReader (FileByLineOpsReader ''ops.json''),
       CallSetStartTime (FileByLineOpsReader ''ops.json'') 15,
       CallSkipOps (FileByLineOpsReader ''ops.json'') 1,
       MakeDispatcher (BestEffortOpsDispatcher (FileByLineOpsReader ''ops.json'') 5)]"
    using main_stress_replay [OF st ws reader_ok_replay sent g',
        of "example_mongo []" 0 short_schedule]
    by (simp add: replay_globals_def example_globals_def)
  have a: "snd (main (replay_collab None [10, 20, 30]) (example_mongo [])
                  (replay_globals ''stress'' 5 15 1) 0 short_schedule) =
      Inr \<lparr>opsChan = [], opsExecuted = 1, pcs = [WFinish, WFinish], received = 2,
            returned = True, panicked = None, rpc = RCheck, reported = [], errlog = [],
            signals = [0, 1], db = 1\<rparr>"
    using style_selects_pipeline [OF st1 ws reader_ok_replay sent g' rest cyc,
        of "example_mongo []" 0 short_schedule]
    by (simp add: replay_globals_def example_globals_def short_schedule_def step_def
        worker_step_def main_step_def init_def example_mongo_def example_block_def
        execute_op_def RetryOnSocketFailure_def retry_lines_def eval_nat_numeral)
  have b: "snd (main (replay_collab None [10, 20, 30]) (example_mongo [])
            (replay_globals ''real'' 5 15 1) 0 []) =
       Inr (init ((replay_globals ''real'' 5 15 1)\<lparr>logger := Some ()\<rparr>)
              [Some 30, Some 10, Some 20, Some 30, Some 10, None, None] 0)"
    using style_selects_pipeline [OF st2 ws reader_ok_replay sent g' rest cyc,
        of "example_mongo []" 0 "[]"]
    by (simp add: replay_globals_def example_globals_def eval_nat_numeral)
  show ?thesis using evs a b by (simp add: prod_eq_iff)
qed




text \<open>
  C4, at the failing input: \<open>maxOps = 0\<close>, the style "stress", no seek and no skip, and
  a recording of 4294967296 ops. \<^verbatim>\<open>main\<close> builds the best-effort dispatcher with the
  limit 4294967295, and the channel of the dispatcher of the specification carries the
  first 4294967295 ops of the recording and then the nils: the last op of the
  recording is not replayed.
\<close>

theorem maxOps_zero_stops_at_limit:
  "maxOps (replay_globals ''stress'' 0 0 0) = 0
   \<and> length long_source = 4294967296
   \<and> main (replay_collab None long_source) (example_mongo []) (replay_globals ''stress'' 0 0 0)
       0 [] =
     ([GOMAXPROCS 100, CallNewLogger [] [], MakeReader (FileByLineOpsReader ''ops.json''),
       MakeDispatcher (BestEffortOpsDispatcher (FileByLineOpsReader ''ops.json'') 4294967295)],
      Inr (init ((replay_globals ''stress'' 0 0 0)\<lparr>maxOps := 4294967295, logger := Some ()\<rparr>)
             (map Some (take 4294967295 long_source) @ [None, None]) 0))
   \<and> length (take 4294967295 long_source) = 4294967295"
proof -
  have st: "style (replay_globals ''stress'' 0 0 0) = ''stress''"
    by (simp add: replay_globals_def example_globals_def)
  have w: "0 < workers (replay_globals ''stress'' 0 0 0)"
    by (simp add: replay_globals_def example_globals_def)
  have sent: "opsSent (replay_collab None long_source) =
      dispatched int (\<lambda>f. long_source) (nat (workers (replay_globals ''stress'' 0 0 0)))"
    by (simp add: replay_collab_def replay_globals_def example_globals_def)
  have g': "(replay_globals ''stress'' 0 0 0)\<lparr>maxOps := 4294967295, logger := Some ()\<rparr> =
      (replay_globals ''stress'' 0 0 0)
        \<lparr>maxOps := (if maxOps (replay_globals ''stress'' 0 0 0) = 0 then 4294967295
                    else maxOps (replay_globals ''stress'' 0 0 0)),
         logger := fst (NewLogger (replay_collab None long_source)
                          (stdout (replay_globals ''stress'' 0 0 0))
                          (stderr (replay_globals ''stress'' 0 0 0)))\<rparr>"
    by (simp add: replay_globals_def example_globals_def replay_collab_def example_collab_def)
  have rest: "start_of int (replay_globals ''stress'' 0 0 0) long_source = long_source"
    by (simp add: start_of_def replay_globals_def example_globals_def)
  have "main (replay_collab None long_source) (example_mongo []) (replay_globals ''stress'' 0 0 0)
       0 [] =
     ([GOMAXPROCS 100, CallNewLogger [] [], MakeReader (FileByLineOpsReader ''ops.json''),
       MakeDispatcher (BestEffortOpsDispatcher (FileByLineOpsReader ''ops.json'') 4294967295)],
      Inr (init ((replay_globals ''stress'' 0 0 0)\<lparr>maxOps := 4294967295, logger := Some ()\<rparr>)
             (map Some (take 4294967295 long_source) @ [None, None]) 0))"
    unfolding main_stress_replay [OF st w reader_ok_replay sent g'] rest
    by (simp add: replay_globals_def example_globals_def numeral_2_eq_2)
  moreover have "length long_source = 4294967296" by (simp add: long_source_def)
  ultimately show ?thesis by (simp add: replay_globals_def example_globals_def)
qed

end
